theory Spec2Isabelle
  imports Main "HOL-Library.Multiset"
begin

section \<open>Go library functions the package calls\<close>

text \<open>
  The package \<^verbatim>\<open>procs\<close> (file \<^verbatim>\<open>process.go\<close>) builds a pipeline of
  \<^verbatim>\<open>*exec.Cmd\<close> values from a command string, wires their pipes, starts them and
  drains the last stage's output line by line. Go strings and byte slices are byte
  sequences, here \<^typ>\<open>string\<close> (a \<^typ>\<open>char list\<close>).

  This section transcribes the functions of Go's standard library that the package calls
  and whose results the properties below depend on: \<^verbatim>\<open>bytes.IndexByte\<close> and
  \<^verbatim>\<open>os.Expand\<close> with its helpers (\<^verbatim>\<open>os/env.go\<close>).
\<close>

text \<open>\<^verbatim>\<open>bytes.IndexByte(b, c)\<close>: the index of the first \<^verbatim>\<open>c\<close> in \<^verbatim>\<open>b\<close>;
  Go's \<^verbatim>\<open>-1\<close> is \<^const>\<open>None\<close>.\<close>

fun IndexByte :: "string \<Rightarrow> char \<Rightarrow> nat option" where
  "IndexByte [] c = None"
| "IndexByte (x # xs) c = (if x = c then Some 0 else map_option Suc (IndexByte xs c))"

definition isShellSpecialVar :: "char \<Rightarrow> bool" where
  "isShellSpecialVar c = (c \<in> set ''*#$@!?-0123456789'')"

definition isAlphaNum :: "char \<Rightarrow> bool" where
  "isAlphaNum c =
     (c = CHR ''_''
      \<or> ((48::nat) \<le> of_char c \<and> of_char c \<le> (57::nat))
      \<or> ((97::nat) \<le> of_char c \<and> of_char c \<le> (122::nat))
      \<or> ((65::nat) \<le> of_char c \<and> of_char c \<le> (90::nat)))"

text \<open>
  \<^verbatim>\<open>getShellName(s)\<close> returns the name that begins \<^verbatim>\<open>s\<close> and the number of bytes
  it consumes. \<^verbatim>\<open>os.Expand\<close> calls it only on a non-empty string (Go would index
  \<^verbatim>\<open>s[0]\<close>), so the first equation is never reached.
\<close>

fun getShellName :: "string \<Rightarrow> string \<times> nat" where
  "getShellName [] = ([], 0)"
| "getShellName (c # cs) =
     (if c = CHR ''{'' then
        (if length (c # cs) > 2 \<and> isShellSpecialVar (cs ! 0) \<and> cs ! 1 = CHR ''}''
         then ([cs ! 0], 3)
         else (case IndexByte cs (CHR ''}'') of
                 None \<Rightarrow> ([], 1)
               | Some j \<Rightarrow> (if j = 0 then ([], 2) else (take j cs, j + 2))))
      else if isShellSpecialVar c then ([c], 1)
      else (let i = length (takeWhile isAlphaNum (c # cs)) in (take i (c # cs), i)))"

text \<open>
  \<^verbatim>\<open>os.Expand(s, mapping)\<close>: at a \<^verbatim>\<open>$\<close> that is not the last byte, the name that
  follows is replaced by \<^verbatim>\<open>mapping(name)\<close>; bad syntax (\<^verbatim>\<open>${\<close>, \<^verbatim>\<open>${}\<close>) is eaten,
  and a \<^verbatim>\<open>$\<close> followed by no name stays. Go's loop advances its index by the width
  \<^verbatim>\<open>w\<close> of the name; here the recursion continues on \<^term>\<open>drop w cs\<close>.
\<close>

function os_Expand :: "string \<Rightarrow> (string \<Rightarrow> string) \<Rightarrow> string" where
  "os_Expand [] mapping = []"
| "os_Expand (c # cs) mapping =
     (if c = CHR ''$'' \<and> cs \<noteq> [] then
        (case getShellName cs of
           (name, w) \<Rightarrow>
             (if name = [] \<and> w > 0 then []
              else if name = [] then [c]
              else mapping name) @ os_Expand (drop w cs) mapping)
      else c # os_Expand cs mapping)"
  by pat_completeness auto
termination
  by (relation "measure (\<lambda>(s, m). length s)") auto

section \<open>The data model\<close>

text \<open>
  Go has two ways to leave a function other than returning: a run-time panic (an index
  or slice bound out of range) and \<^verbatim>\<open>log.Fatalf\<close>, which ends the host process.
  Both are values of \<open>abort\<close>; a function that can leave this way returns
  \<open>abort + 'a\<close>. \<open>SplitFailed\<close> stands for \<^verbatim>\<open>SplitCommand\<close> not returning.
  Values of Go's \<^verbatim>\<open>error\<close> interface that the code returns are \<open>go_error\<close>;
  \<^verbatim>\<open>nil\<close> is \<^const>\<open>None\<close>.
\<close>

datatype abort =
    PanicIndexOutOfRange
  | PanicSliceBounds
  | PanicNilPointer
  | PanicNegativeCounter
  | LogFatal
  | SplitFailed

datatype go_error =
    StartError string
  | AlreadyStarted
  | NotStartedYet
  | WaitAlreadyCalled
  | ExitError int
  | StdoutAlreadySet
  | StderrAlreadySet
  | StdoutPipeAfterStart
  | StderrPipeAfterStart

text \<open>
  The streams a command can be attached to. \<open>OutPipe i\<close> and \<open>ErrPipe i\<close> are the
  pipes that \<^verbatim>\<open>StdoutPipe\<close> and \<^verbatim>\<open>StderrPipe\<close> create for the command at index
  \<open>i\<close> of \<^verbatim>\<open>p.Cmds\<close>; \<open>ErrBuffer\<close> is \<^verbatim>\<open>&p.errBuffer\<close>.
\<close>

datatype pipe = OutPipe nat | ErrPipe nat

datatype stream = PipeRead pipe | PipeWrite pipe | ErrBuffer

datatype proc_state = NotStarted | Running | Finished

text \<open>
  The fields of \<^verbatim>\<open>exec.Cmd\<close> that the package reads or writes. \<open>cmd_Process\<close>
  stands for \<^verbatim>\<open>c.Process\<close> and \<^verbatim>\<open>c.ProcessState\<close>: \<open>NotStarted\<close> when
  \<^verbatim>\<open>c.Process\<close> is nil, \<open>Finished\<close> once \<^verbatim>\<open>Wait\<close> has stored the state.
\<close>

record Cmd =
  cmd_Path :: string
  cmd_Args :: "string list"
  cmd_Dir :: string
  cmd_Env :: "string list option"
  cmd_Stdin :: "stream option"
  cmd_Stdout :: "stream option"
  cmd_Stderr :: "stream option"
  cmd_Process :: proc_state

datatype os_call = CallStart nat | CallWait nat

text \<open>
  The struct \<^verbatim>\<open>Process\<close>. \<^verbatim>\<open>Cmds\<close> is a list of pointers in Go; the model keeps
  the commands themselves and names a command by its index, so the commands of a
  pipeline are distinct objects (as those built by \<^verbatim>\<open>addCmd\<close> always are) and none is
  nil. \<^verbatim>\<open>Env\<close> is a Go map, nil or not: \<^const>\<open>None\<close> or the list of its entries,
  one per key. The list fixes no order of visit: each \<^verbatim>\<open>range\<close> over the map
  visits the entries in an order of its own (\<open>range_Env\<close> below).
  \<^verbatim>\<open>outputWait\<close> is nil or a wait group holding a counter. \<open>calls\<close> is not a field
  of the struct: it records, in order, every call of \<^verbatim>\<open>Start\<close> and \<^verbatim>\<open>Wait\<close> that
  the package makes on a command.
\<close>

record Process =
  CmdString :: string
  Cmds :: "Cmd list"
  Env :: "(string \<times> string) list option"
  Dir :: string
  OutputHandler :: "(string \<Rightarrow> string) option"
  errBuffer :: string
  outBuffer :: string
  outputWait :: "nat option"
  calls :: "os_call list"

text \<open>
  What the program does not decide: the ambient environment, the result of
  \<^verbatim>\<open>SplitCommand\<close> (a function of the package that \<^verbatim>\<open>process.go\<close> calls and does
  not define, so it is a parameter here), whether the operating system can launch the
  command at index \<open>i\<close> (\<^const>\<open>None\<close>, or the message of the failure), the status
  with which its process exits (0 for success), and the order in which a \<^verbatim>\<open>range\<close>
  over a map visits its keys: Go leaves it unspecified and it changes from one
  \<^verbatim>\<open>range\<close> to the next, so \<open>range_rank n\<close> ranks the keys for the \<^verbatim>\<open>range\<close> that
  \<^verbatim>\<open>addCmd\<close> runs when it builds the stage of index \<open>n\<close>.
\<close>

record system =
  environ :: "string \<rightharpoonup> string"
  SplitCommand :: "string \<Rightarrow> abort + string list"
  os_start :: "nat \<Rightarrow> string option"
  os_exit :: "nat \<Rightarrow> int"
  range_rank :: "nat \<Rightarrow> string \<Rightarrow> nat"

definition NewProcess :: "string \<Rightarrow> Process" where
  "NewProcess command =
     \<lparr>CmdString = command, Cmds = [], Env = None, Dir = [], OutputHandler = None,
      errBuffer = [], outBuffer = [], outputWait = None, calls = []\<rparr>"

section \<open>Environment expansion\<close>

text \<open>\<^verbatim>\<open>os.Getenv\<close> gives the empty string for an unset variable, and
  \<^verbatim>\<open>os.ExpandEnv(s)\<close> is \<^verbatim>\<open>os.Expand(s, os.Getenv)\<close>.\<close>

definition os_Getenv :: "system \<Rightarrow> string \<Rightarrow> string" where
  "os_Getenv w key = (case environ w key of None \<Rightarrow> [] | Some v \<Rightarrow> v)"

definition os_ExpandEnv :: "system \<Rightarrow> string \<Rightarrow> string" where
  "os_ExpandEnv w s = os_Expand s (os_Getenv w)"

text \<open>Reading a Go map, nil or not, at a missing key gives the zero value.\<close>

definition map_index :: "(string \<times> string) list option \<Rightarrow> string \<Rightarrow> string" where
  "map_index m key =
     (case m of
        None \<Rightarrow> []
      | Some kvs \<Rightarrow> (case map_of kvs key of None \<Rightarrow> [] | Some v \<Rightarrow> v))"

definition expand :: "system \<Rightarrow> Process \<Rightarrow> string \<Rightarrow> string" where
  "expand w p s =
     (if Env p \<noteq> None then os_ExpandEnv w s
      else os_Expand s (\<lambda>key. map_index (Env p) key))"

section \<open>The command builder\<close>

text \<open>\<^verbatim>\<open>exec.Command(name, arg...)\<close>: the argument vector starts with the name. The
  lookup of the executable is part of launching it (\<^const>\<open>os_start\<close>).\<close>

definition exec_Command :: "string \<Rightarrow> string list \<Rightarrow> Cmd" where
  "exec_Command name arg =
     \<lparr>cmd_Path = name, cmd_Args = name # arg, cmd_Dir = [], cmd_Env = None,
      cmd_Stdin = None, cmd_Stdout = None, cmd_Stderr = None, cmd_Process = NotStarted\<rparr>"

text \<open>
  The entries of a map in the order in which the \<^verbatim>\<open>range\<close> of the \<open>n\<close>-th call of
  \<^verbatim>\<open>addCmd\<close> visits them: sorted by the rank of their keys, so every order of
  visit is the one of some ranking.
\<close>

definition range_Env :: "system \<Rightarrow> nat \<Rightarrow> (string \<times> string) list \<Rightarrow> (string \<times> string) list" where
  "range_Env w n kvs = sort_key (\<lambda>(k, v). range_rank w n k) kvs"

text \<open>
  \<^verbatim>\<open>addCmd\<close>. With an empty \<^verbatim>\<open>cmdparts\<close> the length is not 1, so the second branch
  evaluates \<^verbatim>\<open>cmdparts[0]\<close> and \<^verbatim>\<open>cmdparts[1:]\<close>, and both are out of range. Go
  leaves open which of the two is evaluated first; the compiled program reports the
  slice (slice bounds out of range \<^verbatim>\<open>[1:0]\<close>). The stage being built has the index
  \<^verbatim>\<open>len(p.Cmds)\<close>.
\<close>

definition addCmd :: "system \<Rightarrow> Process \<Rightarrow> string list \<Rightarrow> abort + Process" where
  "addCmd w p cmdparts =
     (case (if length cmdparts = 1 then Inr (exec_Command (cmdparts ! 0) [])
            else (case cmdparts of
                    [] \<Rightarrow> Inl PanicSliceBounds
                  | x # xs \<Rightarrow> Inr (exec_Command x xs))) of
        Inl a \<Rightarrow> Inl a
      | Inr cmd \<Rightarrow>
          (let cmd1 = (if Dir p \<noteq> [] then cmd\<lparr>cmd_Dir := Dir p\<rparr> else cmd);
               cmd2 = (case Env p of
                         None \<Rightarrow> cmd1
                       | Some kvs \<Rightarrow>
                           cmd1\<lparr>cmd_Env :=
                             Some (map (\<lambda>(k, v). k @ ''='' @ expand w p v)
                                     (range_Env w (length (Cmds p)) kvs))\<rparr>)
           in Inr (p\<lparr>Cmds := Cmds p @ [cmd2]\<rparr>)))"

text \<open>The loop of \<^verbatim>\<open>findCmds\<close> over the expanded parts; \<open>cmd\<close> is the group
  collected since the last pipe.\<close>

fun findCmds_loop :: "system \<Rightarrow> Process \<Rightarrow> string list \<Rightarrow> string list \<Rightarrow> abort + Process" where
  "findCmds_loop w p cmd [] = addCmd w p cmd"
| "findCmds_loop w p cmd (part # parts) =
     (if part = ''|'' then
        (case addCmd w p cmd of
           Inl a \<Rightarrow> Inl a
         | Inr p' \<Rightarrow> findCmds_loop w p' [] parts)
      else findCmds_loop w p (cmd @ [part]) parts)"

definition findCmds :: "system \<Rightarrow> Process \<Rightarrow> abort + Process" where
  "findCmds w p =
     (if length (Cmds p) > 0 then Inr p
      else if CmdString p = [] then Inr p
      else (case SplitCommand w (CmdString p) of
              Inl a \<Rightarrow> Inl a
            | Inr parts \<Rightarrow> findCmds_loop w p [] (map (expand w p) parts)))"

section \<open>Commands of \<^verbatim>\<open>os/exec\<close>\<close>

text \<open>
  The methods of \<^verbatim>\<open>exec.Cmd\<close> that the package calls, on the command at index
  \<open>i\<close>. \<^verbatim>\<open>Start\<close> refuses a command that has a process, and otherwise asks the
  operating system; \<^verbatim>\<open>Wait\<close> refuses a command that is not running, and otherwise
  returns nil for exit status 0 and an \<^verbatim>\<open>*exec.ExitError\<close> for any other.
  \<^verbatim>\<open>StdoutPipe\<close> and \<^verbatim>\<open>StderrPipe\<close> refuse a stream that is set and a command
  that has started; creating the pipe itself (\<^verbatim>\<open>os.Pipe\<close>) is taken to succeed.
\<close>

definition cmd_Start :: "system \<Rightarrow> nat \<Rightarrow> Cmd \<Rightarrow> Cmd \<times> go_error option" where
  "cmd_Start w i c =
     (if cmd_Process c \<noteq> NotStarted then (c, Some AlreadyStarted)
      else (case os_start w i of
              Some msg \<Rightarrow> (c, Some (StartError msg))
            | None \<Rightarrow> (c\<lparr>cmd_Process := Running\<rparr>, None)))"

definition cmd_Wait :: "system \<Rightarrow> nat \<Rightarrow> Cmd \<Rightarrow> Cmd \<times> go_error option" where
  "cmd_Wait w i c =
     (case cmd_Process c of
        NotStarted \<Rightarrow> (c, Some NotStartedYet)
      | Finished \<Rightarrow> (c, Some WaitAlreadyCalled)
      | Running \<Rightarrow>
          (c\<lparr>cmd_Process := Finished\<rparr>,
           if os_exit w i = 0 then None else Some (ExitError (os_exit w i))))"

definition cmd_StdoutPipe :: "nat \<Rightarrow> Cmd \<Rightarrow> Cmd \<times> stream option \<times> go_error option" where
  "cmd_StdoutPipe i c =
     (if cmd_Stdout c \<noteq> None then (c, None, Some StdoutAlreadySet)
      else if cmd_Process c \<noteq> NotStarted then (c, None, Some StdoutPipeAfterStart)
      else (c\<lparr>cmd_Stdout := Some (PipeWrite (OutPipe i))\<rparr>, Some (PipeRead (OutPipe i)), None))"

definition cmd_StderrPipe :: "nat \<Rightarrow> Cmd \<Rightarrow> Cmd \<times> stream option \<times> go_error option" where
  "cmd_StderrPipe i c =
     (if cmd_Stderr c \<noteq> None then (c, None, Some StderrAlreadySet)
      else if cmd_Process c \<noteq> NotStarted then (c, None, Some StderrPipeAfterStart)
      else (c\<lparr>cmd_Stderr := Some (PipeWrite (ErrPipe i))\<rparr>, Some (PipeRead (ErrPipe i)), None))"

text \<open>\<^verbatim>\<open>p.Cmds[i].Start()\<close> and \<^verbatim>\<open>p.Cmds[i].Wait()\<close> as steps of the state.\<close>

definition start_at :: "system \<Rightarrow> nat \<Rightarrow> Process \<Rightarrow> Process \<times> go_error option" where
  "start_at w i p =
     (case cmd_Start w i (Cmds p ! i) of
        (c, err) \<Rightarrow> (p\<lparr>Cmds := (Cmds p)[i := c], calls := calls p @ [CallStart i]\<rparr>, err))"

definition wait_at :: "system \<Rightarrow> nat \<Rightarrow> Process \<Rightarrow> Process \<times> go_error option" where
  "wait_at w i p =
     (case cmd_Wait w i (Cmds p ! i) of
        (c, err) \<Rightarrow> (p\<lparr>Cmds := (Cmds p)[i := c], calls := calls p @ [CallWait i]\<rparr>, err))"

section \<open>Pipe wiring\<close>

text \<open>
  \<^verbatim>\<open>setupOutputHandler(cmd)\<close>, called on the command at index \<open>i\<close>. \<^verbatim>\<open>checkErr\<close>
  ends the host process on an error. The two reader tasks that it launches run
  concurrently with the caller; what one of them does to a stream is \<open>lineReader\<close>
  below, and here only the wait group with its counter of 2 is recorded.
\<close>

definition setupOutputHandler :: "nat \<Rightarrow> Process \<Rightarrow> abort + (Process \<times> go_error option)" where
  "setupOutputHandler i p =
     (case cmd_StdoutPipe i (Cmds p ! i) of
        (c1, stdout, err1) \<Rightarrow>
          (if err1 \<noteq> None then Inl LogFatal
           else (case cmd_StderrPipe i c1 of
                   (c2, stderr, err2) \<Rightarrow>
                     (if err2 \<noteq> None then Inl LogFatal
                      else Inr (p\<lparr>Cmds := (Cmds p)[i := c2], outputWait := Some 2\<rparr>, None)))))"

text \<open>The loop of \<^verbatim>\<open>setupPipes\<close> over the indices of \<^verbatim>\<open>p.Cmds[:last]\<close>. On an
  error the assignment has already stored the nil reader in the next command's
  \<^verbatim>\<open>Stdin\<close>.\<close>

fun setupPipes_loop :: "nat list \<Rightarrow> Process \<Rightarrow> Process \<times> go_error option" where
  "setupPipes_loop [] p = (p, None)"
| "setupPipes_loop (i # is) p =
     (case cmd_StdoutPipe i (Cmds p ! i) of
        (c, r, err) \<Rightarrow>
          (let cmds1 = (Cmds p)[i := c];
               cmds2 = cmds1[Suc i := (cmds1 ! Suc i)\<lparr>cmd_Stdin := r\<rparr>]
           in if err \<noteq> None then (p\<lparr>Cmds := cmds2\<rparr>, err)
              else setupPipes_loop is
                     (p\<lparr>Cmds := cmds2[i := (cmds2 ! i)\<lparr>cmd_Stderr := Some ErrBuffer\<rparr>]\<rparr>)))"

text \<open>\<^verbatim>\<open>setupPipes\<close>: \<^verbatim>\<open>last\<close> is an \<^verbatim>\<open>int\<close>, -1 for an empty list, and slicing
  \<^verbatim>\<open>p.Cmds[:last]\<close> with a negative bound panics.\<close>

definition setupPipes :: "Process \<Rightarrow> abort + (Process \<times> go_error option)" where
  "setupPipes p =
     (let last = int (length (Cmds p)) - 1 in
      if last < 0 then Inl PanicSliceBounds
      else (case setupPipes_loop [0..<nat last] p of
              (p1, err) \<Rightarrow>
                (if err \<noteq> None then Inr (p1, err)
                 else setupOutputHandler (nat last) p1)))"

section \<open>Launching and waiting\<close>

text \<open>Waiting on the commands at the given indices, the errors dropped: the deferred
  function of \<^verbatim>\<open>start\<close> and the loop of \<^verbatim>\<open>wait\<close>.\<close>

fun wait_each :: "system \<Rightarrow> nat list \<Rightarrow> Process \<Rightarrow> Process" where
  "wait_each w [] p = p"
| "wait_each w (j # js) p = wait_each w js (fst (wait_at w j p))"

text \<open>The loop of \<^verbatim>\<open>start\<close>: on the first error the deferred function waits on
  \<^verbatim>\<open>p.Cmds[0:i]\<close> before the error is returned.\<close>

fun start_loop :: "system \<Rightarrow> nat list \<Rightarrow> Process \<Rightarrow> Process \<times> go_error option" where
  "start_loop w [] p = (p, None)"
| "start_loop w (i # is) p =
     (case start_at w i p of
        (p', err) \<Rightarrow>
          (if err \<noteq> None then (wait_each w [0..<i] p', err)
           else start_loop w is p'))"

definition start :: "system \<Rightarrow> Process \<Rightarrow> Process \<times> go_error option" where
  "start w p = start_loop w [0..<length (Cmds p)] p"

definition wait :: "system \<Rightarrow> Process \<Rightarrow> Process \<times> go_error option" where
  "wait w p = (wait_each w [0..<length (Cmds p)] p, None)"

text \<open>
  \<^verbatim>\<open>Run\<close>. The result of \<^verbatim>\<open>setupPipes\<close> is dropped, and so is that of \<^verbatim>\<open>wait\<close>.
  The returned string is the output buffer as it stands; the appends of the concurrent
  reader tasks are not part of this sequential model. Printing is left out.
\<close>

definition Run :: "system \<Rightarrow> Process \<Rightarrow> abort + (Process \<times> string \<times> go_error option)" where
  "Run w p =
     (case findCmds w p of
        Inl a \<Rightarrow> Inl a
      | Inr p1 \<Rightarrow>
          (case setupPipes p1 of
             Inl a \<Rightarrow> Inl a
           | Inr (p2, _) \<Rightarrow>
               (case start w p2 of
                  (p3, err) \<Rightarrow>
                    (if err \<noteq> None then Inr (p3, [], err)
                     else (case wait w p3 of
                             (p4, _) \<Rightarrow> Inr (p4, outBuffer p4, None))))))"

text \<open>\<^verbatim>\<open>Start\<close>: after \<^verbatim>\<open>p.start()\<close> has returned nil, the body holds the loop of
  \<^verbatim>\<open>start\<close> a second time.\<close>

definition Start :: "system \<Rightarrow> Process \<Rightarrow> abort + (Process \<times> go_error option)" where
  "Start w p =
     (case findCmds w p of
        Inl a \<Rightarrow> Inl a
      | Inr p1 \<Rightarrow>
          (case setupPipes p1 of
             Inl a \<Rightarrow> Inl a
           | Inr (p2, _) \<Rightarrow>
               (case start w p2 of
                  (p3, err) \<Rightarrow>
                    (if err \<noteq> None then Inr (p3, err)
                     else Inr (start_loop w [0..<length (Cmds p3)] p3)))))"

text \<open>\<^verbatim>\<open>Wait\<close>: \<^verbatim>\<open>p.outputWait.Wait()\<close> blocks until the reader tasks are done and
  changes nothing here; \<^verbatim>\<open>p.Cmds[last]\<close> with \<^verbatim>\<open>last\<close> = -1 panics.\<close>

definition Wait :: "system \<Rightarrow> Process \<Rightarrow> abort + (Process \<times> go_error option)" where
  "Wait w p =
     (let last = int (length (Cmds p)) - 1 in
      if last < 0 then Inl PanicIndexOutOfRange
      else Inr (wait_at w (nat last) p))"

definition Output :: "Process \<Rightarrow> string" where
  "Output p = outBuffer p"

section \<open>The line reader\<close>

text \<open>
  A stream is the sequence of results of the successive calls \<^verbatim>\<open>reader.Read(buf)\<close>:
  the bytes read (at most 1024, the size of \<^verbatim>\<open>buf\<close>) with a nil error, or an error
  (\<^verbatim>\<open>io.EOF\<close> or any other), after which \<^verbatim>\<open>lineReader\<close> asks no more.
\<close>

datatype read_result = Data string | ReadErr

text \<open>
  The inner loop of \<^verbatim>\<open>lineReader\<close>: while \<^verbatim>\<open>buf\<close> holds a newline, the bytes
  before it complete the line kept in \<^verbatim>\<open>buffer\<close>; the line goes through the output
  handler, if there is one, and is appended to \<^verbatim>\<open>p.outBuffer\<close>. The result is the
  state, what is left of \<^verbatim>\<open>buf\<close>, and \<^verbatim>\<open>buffer\<close>.
\<close>

function lineReader_inner :: "Process \<Rightarrow> string \<Rightarrow> string \<Rightarrow> Process \<times> string \<times> string" where
  "lineReader_inner p buf buffer =
     (case IndexByte buf (CHR 0x0A) of
        None \<Rightarrow> (p, buf, buffer)
      | Some i \<Rightarrow>
          (let buffer1 = buffer @ take i buf;
               outLine = (case OutputHandler p of None \<Rightarrow> buffer1 | Some h \<Rightarrow> h buffer1)
           in lineReader_inner (p\<lparr>outBuffer := outBuffer p @ outLine\<rparr>) (drop (i + 1) buf) []))"
  by pat_completeness auto
termination
proof (relation "measure (\<lambda>(p, buf, buffer). length buf)")
  show "wf (measure (\<lambda>(p, buf, buffer). length buf))"
    by simp
next
  fix p :: Process and buf buffer :: string and i buffer1 outLine
  assume "IndexByte buf (CHR 0x0A) = Some i"
  then have "buf \<noteq> []"
    by (cases buf) simp_all
  then show "((p\<lparr>outBuffer := outBuffer p @ outLine\<rparr>, drop (i + 1) buf, []), (p, buf, buffer))
      \<in> measure (\<lambda>(p, buf, buffer). length buf)"
    by simp
qed

declare lineReader_inner.simps [simp del]

text \<open>
  The outer loop, from the \<open>n\<close>-th read on. It ends at the first read that reports an
  error and not before, so on a stream that never reports one it does not return:
  the value is then \<^const>\<open>None\<close>.
\<close>

partial_function (option) lineReader_loop ::
  "(nat \<Rightarrow> read_result) \<Rightarrow> nat \<Rightarrow> string \<Rightarrow> Process \<Rightarrow> Process option" where
  "lineReader_loop r n buffer p =
     (case r n of
        ReadErr \<Rightarrow> Some p
      | Data buf \<Rightarrow>
          (case lineReader_inner p buf buffer of
             (p', rest, buffer') \<Rightarrow> lineReader_loop r (Suc n) (buffer' @ rest) p'))"

declare lineReader_loop.simps [code]

text \<open>
  \<^verbatim>\<open>wg.Done()\<close>, which \<^verbatim>\<open>lineReader\<close> defers: the wait group handed over is
  \<^verbatim>\<open>p.outputWait\<close> at both calls. It lowers the counter by one; Go panics on a nil
  wait group and on a counter that would fall below zero.
\<close>

definition wg_Done :: "Process \<Rightarrow> abort + Process" where
  "wg_Done p =
     (case outputWait p of
        None \<Rightarrow> Inl PanicNilPointer
      | Some n \<Rightarrow>
          (if n = 0 then Inl PanicNegativeCounter
           else Inr (p\<lparr>outputWait := Some (n - 1)\<rparr>)))"

text \<open>\<^verbatim>\<open>lineReader\<close> on the stream \<open>r\<close>: the loop, and the deferred call when it
  returns.\<close>

definition lineReader :: "(nat \<Rightarrow> read_result) \<Rightarrow> Process \<Rightarrow> (abort + Process) option" where
  "lineReader r p = map_option wg_Done (lineReader_loop r 0 [] p)"

section \<open>Notions of the specification\<close>

text \<open>
  The complete lines of a byte sequence: the runs of bytes that a newline ends, without
  the newline. What follows the last newline belongs to no complete line.
\<close>

fun lines_from :: "string \<Rightarrow> string \<Rightarrow> string list" where
  "lines_from cur [] = []"
| "lines_from cur (c # cs) =
     (if c = CHR 0x0A then cur # lines_from [] cs else lines_from (cur @ [c]) cs)"

definition complete_lines :: "string \<Rightarrow> string list" where
  "complete_lines s = lines_from [] s"

text \<open>What is left once the complete lines are taken away: the bytes after the last
  newline, or all of them, after \<open>cur\<close>, when there is no newline.\<close>

fun pending :: "string \<Rightarrow> string \<Rightarrow> string" where
  "pending cur [] = cur"
| "pending cur (c # cs) = (if c = CHR 0x0A then pending [] cs else pending (cur @ [c]) cs)"

text \<open>The line transform of a pipeline, the identity when none is configured.\<close>

definition transform :: "Process \<Rightarrow> string \<Rightarrow> string" where
  "transform p ln = (case OutputHandler p of None \<Rightarrow> ln | Some h \<Rightarrow> h ln)"

text \<open>The bytes of the first \<open>k\<close> reads of a stream, an error contributing none.\<close>

definition stream_data :: "(nat \<Rightarrow> read_result) \<Rightarrow> nat \<Rightarrow> string" where
  "stream_data r k = concat (map (\<lambda>n. case r n of Data buf \<Rightarrow> buf | ReadErr \<Rightarrow> []) [0..<k])"

text \<open>The stream that delivers the given chunks and then reports the end of input.\<close>

definition stream_of :: "string list \<Rightarrow> nat \<Rightarrow> read_result" where
  "stream_of chunks n = (if n < length chunks then Data (chunks ! n) else ReadErr)"

text \<open>An uppercasing line transform: \<^verbatim>\<open>strings.ToUpper\<close> on ASCII text.\<close>

definition upper_char :: "char \<Rightarrow> char" where
  "upper_char c =
     (if (97::nat) \<le> of_char c \<and> of_char c \<le> (122::nat)
      then char_of (of_char c - (32::nat)) else c)"

definition ToUpper :: "string \<Rightarrow> string" where
  "ToUpper s = map upper_char s"

text \<open>The word groups of a token sequence: the tokens between one pipe token and the
  next. A leading, a trailing or a doubled pipe token gives an empty group.\<close>

fun word_groups :: "string list \<Rightarrow> string list list" where
  "word_groups [] = [[]]"
| "word_groups (t # ts) =
     (if t = ''|'' then [] # word_groups ts
      else (t # hd (word_groups ts)) # tl (word_groups ts))"

text \<open>
  Modelled from the spec: \<^verbatim>\<open>SplitCommand\<close>, the tokenizer, which \<^verbatim>\<open>process.go\<close>
  calls and does not define. Whitespace separates words outside quotes; the text between matching single
  or double quotes is taken as it is, the quotes removed; a pipe character outside
  quotes is a token of its own, also next to other characters; an unterminated quote
  is an error. Escapes, which the specification names without giving their rules, are
  left out. The general results below hold for any tokenizer; this one serves the
  concrete inputs.
\<close>

definition flush :: "string option \<Rightarrow> string list" where
  "flush cur = (case cur of None \<Rightarrow> [] | Some wd \<Rightarrow> [wd])"

definition word_so_far :: "string option \<Rightarrow> string" where
  "word_so_far cur = (case cur of None \<Rightarrow> [] | Some wd \<Rightarrow> wd)"

text \<open>One character of the input. The state is the word being read, if one has begun,
  the quote character that is open, if any, and the tokens found so far.\<close>

definition lex_step ::
  "string option \<times> char option \<times> string list \<Rightarrow> char \<Rightarrow> string option \<times> char option \<times> string list" where
  "lex_step st c =
     (case st of
        (cur, Some q, toks) \<Rightarrow>
          (if c = q then (cur, None, toks)
           else (Some (word_so_far cur @ [c]), Some q, toks))
      | (cur, None, toks) \<Rightarrow>
          (if c = CHR '' '' \<or> c = CHR 0x09 \<or> c = CHR 0x0A then (None, None, toks @ flush cur)
           else if c = CHR ''|'' then (None, None, toks @ flush cur @ [''|''])
           else if c = CHR 0x22 \<or> c = CHR 0x27 then (Some (word_so_far cur), Some c, toks)
           else (Some (word_so_far cur @ [c]), None, toks)))"

definition SplitCommand_spec :: "string \<Rightarrow> abort + string list" where
  "SplitCommand_spec s =
     (case foldl lex_step (None, None, []) s of
        (cur, Some q, toks) \<Rightarrow> Inl SplitFailed
      | (cur, None, toks) \<Rightarrow> Inr (toks @ flush cur))"

text \<open>A system with the given ambient environment, launch results and exit statuses
  (listed by stage index; past the end of a list every launch succeeds and every exit
  status is 0), and the tokenizer above. Every \<^verbatim>\<open>range\<close> visits the entries of a map
  in the order in which they are listed.\<close>

definition system_of ::
  "(string \<times> string) list \<Rightarrow> string option list \<Rightarrow> int list \<Rightarrow> system" where
  "system_of env st ex =
     \<lparr>environ = map_of env,
      SplitCommand = SplitCommand_spec,
      os_start = (\<lambda>i. if i < length st then st ! i else None),
      os_exit = (\<lambda>i. if i < length ex then ex ! i else 0),
      range_rank = (\<lambda>n k. 0)\<rparr>"

text \<open>The stage of index \<open>n\<close> that \<^verbatim>\<open>addCmd\<close> builds from a non-empty word group: the
  group as argument vector, the directory of the pipeline, and an environment list
  when the pipeline has a mapping.\<close>

definition stage_spec :: "system \<Rightarrow> Process \<Rightarrow> nat \<Rightarrow> string list \<Rightarrow> Cmd" where
  "stage_spec w p n grp =
     \<lparr>cmd_Path = hd grp, cmd_Args = grp, cmd_Dir = Dir p,
      cmd_Env = map_option (\<lambda>kvs. map (\<lambda>(k, v). k @ ''='' @ expand w p v) (range_Env w n kvs))
                  (Env p),
      cmd_Stdin = None, cmd_Stdout = None, cmd_Stderr = None, cmd_Process = NotStarted\<rparr>"

text \<open>The stages built from a list of word groups, the first with index \<open>n\<close>.\<close>

fun stages :: "system \<Rightarrow> Process \<Rightarrow> nat \<Rightarrow> string list list \<Rightarrow> Cmd list" where
  "stages w p n [] = []"
| "stages w p n (g # gs) = stage_spec w p n g # stages w p (Suc n) gs"

text \<open>A command that has not been started and whose output streams are not set.\<close>

definition fresh :: "Cmd \<Rightarrow> bool" where
  "fresh c = (cmd_Process c = NotStarted \<and> cmd_Stdout c = None \<and> cmd_Stderr c = None)"

text \<open>The commands at the given indices put into a process state.\<close>

definition set_state :: "proc_state \<Rightarrow> nat list \<Rightarrow> Cmd list \<Rightarrow> Cmd list" where
  "set_state s js cs = fold (\<lambda>j cs'. cs'[j := (cs' ! j)\<lparr>cmd_Process := s\<rparr>]) js cs"

section \<open>Evaluating the definitions on concrete inputs\<close>

lemmas tokenizer_defs = SplitCommand_spec_def lex_step_def flush_def word_so_far_def

lemmas expand_defs = expand_def os_ExpandEnv_def os_Getenv_def map_index_def
  isShellSpecialVar_def isAlphaNum_def

lemmas build_defs = findCmds_def NewProcess_def system_of_def addCmd_def exec_Command_def
  range_Env_def

lemmas run_defs = Run_def Start_def Wait_def setupPipes_def setupOutputHandler_def
  cmd_StdoutPipe_def cmd_StderrPipe_def start_def wait_def start_at_def wait_at_def
  cmd_Start_def cmd_Wait_def Let_def

section \<open>Properties of expansion and of the command builder\<close>

lemma expand_Env_Some: "Env p = Some kvs \<Longrightarrow> expand w p s = os_ExpandEnv w s"
  by (simp add: expand_def)

lemma expand_Env_None: "Env p = None \<Longrightarrow> expand w p s = os_Expand s (\<lambda>key. [])"
proof -
  have "map_index None = (\<lambda>key. [])"
    by (rule ext) (simp add: map_index_def)
  then show "Env p = None \<Longrightarrow> expand w p s = os_Expand s (\<lambda>key. [])"
    by (simp add: expand_def)
qed

lemma expand_cong_Env: "Env p = Env q \<Longrightarrow> expand w p = expand w q"
  by (rule ext) (simp add: expand_def)

lemma stage_spec_cong:
  "Env p = Env q \<Longrightarrow> Dir p = Dir q \<Longrightarrow> stage_spec w p n grp = stage_spec w q n grp"
  by (simp add: stage_spec_def expand_cong_Env [of p q])

lemma stages_cong:
  "Env p = Env q \<Longrightarrow> Dir p = Dir q \<Longrightarrow> stages w p n gs = stages w q n gs"
  by (induction gs arbitrary: n) (simp_all add: stage_spec_cong [of p q])

lemma args_stages: "map cmd_Args (stages w p n gs) = gs"
  by (induction gs arbitrary: n) (simp_all add: stage_spec_def)

lemma length_stages: "length (stages w p n gs) = length gs"
  by (induction gs arbitrary: n) simp_all

lemma addCmd_Nil: "addCmd w p [] = Inl PanicSliceBounds"
  by (simp add: addCmd_def)

lemma addCmd_Cons:
  "grp \<noteq> [] \<Longrightarrow>
     addCmd w p grp = Inr (p\<lparr>Cmds := Cmds p @ [stage_spec w p (length (Cmds p)) grp]\<rparr>)"
  by (cases grp; cases "tl grp")
     (auto simp: addCmd_def stage_spec_def exec_Command_def Let_def split: option.splits)

lemma word_groups_not_Nil: "word_groups ts \<noteq> []"
  by (induction ts) auto

lemma length_word_groups: "length (word_groups ts) = count_list ts ''|'' + 1"
  by (induction ts) (auto simp: word_groups_not_Nil)

text \<open>The loop of \<^verbatim>\<open>findCmds\<close> adds one stage per word group, in order, and panics
  when a group is empty.\<close>

lemma findCmds_loop_eq:
  "findCmds_loop w p cmd parts =
     (if [] \<in> set ((cmd @ hd (word_groups parts)) # tl (word_groups parts))
      then Inl PanicSliceBounds
      else Inr (p\<lparr>Cmds := Cmds p @
             stages w p (length (Cmds p))
               ((cmd @ hd (word_groups parts)) # tl (word_groups parts))\<rparr>))"
proof (induction parts arbitrary: p cmd)
  case Nil
  then show ?case
    by (simp add: addCmd_Nil addCmd_Cons)
next
  case (Cons part parts)
  show ?case
  proof (cases "part = ''|''")
    case True
    show ?thesis
    proof (cases "cmd = []")
      case True
      with \<open>part = ''|''\<close> show ?thesis
        by (simp add: addCmd_Nil)
    next
      case False
      let ?p' = "p\<lparr>Cmds := Cmds p @ [stage_spec w p (length (Cmds p)) cmd]\<rparr>"
      have sp: "stages w ?p' n gs = stages w p n gs" for n gs
        by (rule stages_cong) simp_all
      have hd_tl: "hd (word_groups parts) # tl (word_groups parts) = word_groups parts"
        by (simp add: word_groups_not_Nil)
      from False \<open>part = ''|''\<close> show ?thesis
        using Cons.IH [of ?p' "[]"] hd_tl
        by (simp add: addCmd_Cons sp)
    qed
  next
    case False
    then show ?thesis
      using Cons.IH [of p "cmd @ [part]"]
      by simp
  qed
qed

lemma findCmds_built:
  assumes "Cmds p = []" "CmdString p \<noteq> []" "SplitCommand w (CmdString p) = Inr toks"
  shows "findCmds w p =
     (if [] \<in> set (word_groups (map (expand w p) toks)) then Inl PanicSliceBounds
      else Inr (p\<lparr>Cmds := stages w p 0 (word_groups (map (expand w p) toks))\<rparr>))"
  using assms
  by (simp add: findCmds_def findCmds_loop_eq word_groups_not_Nil)

text \<open>With commands given beforehand \<^verbatim>\<open>findCmds\<close> builds nothing.\<close>

lemma findCmds_prebuilt: "Cmds p \<noteq> [] \<Longrightarrow> findCmds w p = Inr p"
  by (simp add: findCmds_def)

lemma Run_findCmds_Inl: "findCmds w p = Inl a \<Longrightarrow> Run w p = Inl a"
  by (simp add: Run_def)

lemma Start_findCmds_Inl: "findCmds w p = Inl a \<Longrightarrow> Start w p = Inl a"
  by (simp add: Start_def)

text \<open>Expansion leaves a pipe token as it is, so an empty word group of the tokens is
  still there after every token has been expanded.\<close>

lemma expand_pipe: "expand w p ''|'' = ''|''"
  by (simp add: expand_def os_ExpandEnv_def)

lemma empty_group_map:
  assumes f: "f ''|'' = ''|''"
  shows "([] \<in> set (tl (word_groups ts)) \<longrightarrow> [] \<in> set (tl (word_groups (map f ts))))
       \<and> ([] \<in> set (word_groups ts) \<longrightarrow> [] \<in> set (word_groups (map f ts)))"
proof (induction ts)
  case Nil
  show ?case by simp
next
  case (Cons t ts)
  have sub: "[] \<in> set (tl (word_groups (map f ts))) \<Longrightarrow> [] \<in> set (word_groups (map f ts))"
    by (rule list.set_sel(2)) (simp_all add: word_groups_not_Nil)
  from Cons f sub show ?case
    by auto
qed

lemma stage_spec_fresh: "fresh (stage_spec w p n grp)"
  by (simp add: fresh_def stage_spec_def)

lemma stages_fresh: "c \<in> set (stages w p n gs) \<Longrightarrow> fresh c"
  by (induction gs arbitrary: n) (auto simp: stage_spec_fresh)

text \<open>The environment list of a built stage holds the entries of the mapping, each
  once, in the order of that stage's \<^verbatim>\<open>range\<close>.\<close>

lemma mset_range_Env: "mset (range_Env w n kvs) = mset kvs"
  by (simp add: range_Env_def)

lemma stage_spec_env:
  assumes "Env p = Some kvs"
  shows "\<exists>es. cmd_Env (stage_spec w p n grp) = Some es
     \<and> mset es = mset (map (\<lambda>(k, v). k @ ''='' @ expand w p v) kvs)"
proof -
  let ?entry = "\<lambda>(k, v). k @ ''='' @ expand w p v"
  have "cmd_Env (stage_spec w p n grp) = Some (map ?entry (range_Env w n kvs))"
    using assms by (simp add: stage_spec_def)
  moreover have "mset (map ?entry (range_Env w n kvs)) = mset (map ?entry kvs)"
    by (simp only: mset_map mset_range_Env)
  ultimately show ?thesis
    by blast
qed

lemma stages_env:
  assumes "Env p = Some kvs" and "c \<in> set (stages w p n gs)"
  shows "\<exists>es. cmd_Env c = Some es
     \<and> mset es = mset (map (\<lambda>(k, v). k @ ''='' @ expand w p v) kvs)"
  using assms(2)
proof (induction gs arbitrary: n)
  case Nil
  then show ?case by simp
next
  case (Cons g gs)
  then have "c = stage_spec w p n g \<or> c \<in> set (stages w p (Suc n) gs)"
    by simp
  then show ?case
  proof
    assume "c = stage_spec w p n g"
    then show ?thesis
      using stage_spec_env [OF assms(1), of w n g] by simp
  next
    assume "c \<in> set (stages w p (Suc n) gs)"
    then show ?thesis
      by (rule Cons.IH)
  qed
qed

text \<open>When no word expands to a pipe character, expansion keeps the number of pipe
  tokens.\<close>

lemma count_pipes_map:
  assumes "f ''|'' = ''|''" and "\<forall>t \<in> set ts. t \<noteq> ''|'' \<longrightarrow> f t \<noteq> ''|''"
  shows "count_list (map f ts) ''|'' = count_list ts ''|''"
  using assms by (induction ts) auto

section \<open>Properties of launching, waiting and pipe wiring\<close>

lemma set_state_Nil: "set_state s [] cs = cs"
  by (simp add: set_state_def)

lemma set_state_Cons:
  "set_state s (j # js) cs = set_state s js (cs[j := (cs ! j)\<lparr>cmd_Process := s\<rparr>])"
  by (simp add: set_state_def)

lemma length_set_state: "length (set_state s js cs) = length cs"
  by (induction js arbitrary: cs) (simp_all add: set_state_Nil set_state_Cons)

lemma nth_set_state:
  "i < length cs \<Longrightarrow>
     set_state s js cs ! i = (if i \<in> set js then (cs ! i)\<lparr>cmd_Process := s\<rparr> else cs ! i)"
proof (induction js arbitrary: cs)
  case Nil
  then show ?case by (simp add: set_state_Nil)
next
  case (Cons j js)
  then show ?case
    by (cases "i = j") (simp_all add: set_state_Cons)
qed

lemma start_at_ok:
  assumes "cmd_Process (Cmds p ! i) = NotStarted" "os_start w i = None"
  shows "start_at w i p =
     (p\<lparr>Cmds := (Cmds p)[i := (Cmds p ! i)\<lparr>cmd_Process := Running\<rparr>],
        calls := calls p @ [CallStart i]\<rparr>, None)"
  using assms by (simp add: start_at_def cmd_Start_def)

lemma start_at_fail:
  assumes "cmd_Process (Cmds p ! i) = NotStarted" "os_start w i = Some msg"
  shows "start_at w i p = (p\<lparr>calls := calls p @ [CallStart i]\<rparr>, Some (StartError msg))"
  using assms by (simp add: start_at_def cmd_Start_def)

lemma start_at_refused:
  assumes "cmd_Process (Cmds p ! i) \<noteq> NotStarted"
  shows "start_at w i p = (p\<lparr>calls := calls p @ [CallStart i]\<rparr>, Some AlreadyStarted)"
  using assms by (simp add: start_at_def cmd_Start_def)

lemma wait_at_running:
  assumes "cmd_Process (Cmds p ! i) = Running"
  shows "wait_at w i p =
     (p\<lparr>Cmds := (Cmds p)[i := (Cmds p ! i)\<lparr>cmd_Process := Finished\<rparr>],
        calls := calls p @ [CallWait i]\<rparr>,
      if os_exit w i = 0 then None else Some (ExitError (os_exit w i)))"
  using assms by (simp add: wait_at_def cmd_Wait_def)

lemma start_loop_ok:
  assumes "\<forall>i \<in> set js. i < length (Cmds p) \<and> cmd_Process (Cmds p ! i) = NotStarted
             \<and> os_start w i = None"
    and "distinct js"
  shows "start_loop w js p =
     (p\<lparr>Cmds := set_state Running js (Cmds p), calls := calls p @ map CallStart js\<rparr>, None)"
  using assms
proof (induction js arbitrary: p)
  case Nil
  then show ?case by (simp add: set_state_Nil)
next
  case (Cons i js)
  let ?p1 = "p\<lparr>Cmds := (Cmds p)[i := (Cmds p ! i)\<lparr>cmd_Process := Running\<rparr>],
        calls := calls p @ [CallStart i]\<rparr>"
  from Cons.prems have st: "start_at w i p = (?p1, None)"
    by (simp add: start_at_ok)
  from Cons.prems have pre: "\<forall>j \<in> set js. j < length (Cmds ?p1)
      \<and> cmd_Process (Cmds ?p1 ! j) = NotStarted \<and> os_start w j = None"
    by (auto simp: nth_list_update)
  from Cons.prems have "distinct js" by simp
  from Cons.IH [OF pre this] st show ?case
    by (simp add: set_state_Cons)
qed

lemma wait_each_running:
  assumes "\<forall>j \<in> set js. j < length (Cmds p) \<and> cmd_Process (Cmds p ! j) = Running"
    and "distinct js"
  shows "wait_each w js p =
     p\<lparr>Cmds := set_state Finished js (Cmds p), calls := calls p @ map CallWait js\<rparr>"
  using assms
proof (induction js arbitrary: p)
  case Nil
  then show ?case by (simp add: set_state_Nil)
next
  case (Cons i js)
  let ?p1 = "p\<lparr>Cmds := (Cmds p)[i := (Cmds p ! i)\<lparr>cmd_Process := Finished\<rparr>],
        calls := calls p @ [CallWait i]\<rparr>"
  from Cons.prems have st: "fst (wait_at w i p) = ?p1"
    by (simp add: wait_at_running)
  from Cons.prems have pre: "\<forall>j \<in> set js. j < length (Cmds ?p1)
      \<and> cmd_Process (Cmds ?p1 ! j) = Running"
    by (auto simp: nth_list_update)
  from Cons.prems have "distinct js" by simp
  from Cons.IH [OF pre this] st show ?case
    by (simp add: set_state_Cons)
qed

lemma start_loop_fail:
  assumes "\<forall>i \<in> set pre. i < length (Cmds p) \<and> cmd_Process (Cmds p ! i) = NotStarted
             \<and> os_start w i = None"
    and "distinct (pre @ [k])"
    and "k < length (Cmds p)" "cmd_Process (Cmds p ! k) = NotStarted" "os_start w k = Some msg"
  shows "start_loop w (pre @ k # post) p =
     (wait_each w [0..<k]
        (p\<lparr>Cmds := set_state Running pre (Cmds p),
           calls := calls p @ map CallStart (pre @ [k])\<rparr>),
      Some (StartError msg))"
  using assms
proof (induction pre arbitrary: p)
  case Nil
  then show ?case
    by (simp add: start_at_fail set_state_Nil)
next
  case (Cons i pre)
  let ?p1 = "p\<lparr>Cmds := (Cmds p)[i := (Cmds p ! i)\<lparr>cmd_Process := Running\<rparr>],
        calls := calls p @ [CallStart i]\<rparr>"
  from Cons.prems have st: "start_at w i p = (?p1, None)"
    by (simp add: start_at_ok)
  from Cons.prems have pre: "\<forall>j \<in> set pre. j < length (Cmds ?p1)
      \<and> cmd_Process (Cmds ?p1 ! j) = NotStarted \<and> os_start w j = None"
    by (auto simp: nth_list_update)
  from Cons.prems have d: "distinct (pre @ [k])" and k: "k < length (Cmds ?p1)"
    and kn: "cmd_Process (Cmds ?p1 ! k) = NotStarted"
    by (auto simp: nth_list_update)
  from Cons.IH [OF pre d k kn Cons.prems(5)] st show ?case
    by (simp add: set_state_Cons)
qed

text \<open>A launch failure at stage k.\<close>

lemma start_fails_at:
  assumes fresh: "\<forall>c \<in> set (Cmds p). cmd_Process c = NotStarted"
    and k: "k < length (Cmds p)" and fail: "os_start w k = Some msg"
    and ok: "\<forall>j<k. os_start w j = None"
  shows "start w p =
     (p\<lparr>Cmds := set_state Finished [0..<k] (set_state Running [0..<k] (Cmds p)),
        calls := calls p @ map CallStart [0..<Suc k] @ map CallWait [0..<k]\<rparr>,
      Some (StartError msg))"
proof -
  have split: "[0..<length (Cmds p)] = [0..<k] @ k # [Suc k..<length (Cmds p)]"
    using k by (metis less_imp_add_positive upt_add_eq_append upt_conv_Cons zero_le)
  have pre: "\<forall>i \<in> set [0..<k]. i < length (Cmds p) \<and> cmd_Process (Cmds p ! i) = NotStarted
             \<and> os_start w i = None"
    using fresh k ok by auto
  have kn: "cmd_Process (Cmds p ! k) = NotStarted"
    using fresh k by auto
  let ?p1 = "p\<lparr>Cmds := set_state Running [0..<k] (Cmds p),
           calls := calls p @ map CallStart ([0..<k] @ [k])\<rparr>"
  have run: "\<forall>j \<in> set [0..<k]. j < length (Cmds ?p1) \<and> cmd_Process (Cmds ?p1 ! j) = Running"
    using k by (simp add: length_set_state nth_set_state)
  have "start w p = (wait_each w [0..<k] ?p1, Some (StartError msg))"
    unfolding start_def split
    by (rule start_loop_fail [OF pre _ k kn fail]) simp
  also have "wait_each w [0..<k] ?p1 =
     ?p1\<lparr>Cmds := set_state Finished [0..<k] (Cmds ?p1),
         calls := calls ?p1 @ map CallWait [0..<k]\<rparr>"
    by (rule wait_each_running [OF run]) simp
  finally show ?thesis
    by simp
qed

lemma states_after_failure:
  assumes "\<forall>c \<in> set cs. cmd_Process c = NotStarted" "k \<le> length cs"
  shows "map cmd_Process (set_state Finished [0..<k] (set_state Running [0..<k] cs))
       = replicate k Finished @ replicate (length cs - k) NotStarted"
  using assms
  by (intro nth_equalityI)
     (auto simp: length_set_state nth_set_state nth_append)

lemma setupPipes_loop_append:
  "setupPipes_loop (xs @ ys) p =
     (case setupPipes_loop xs p of
        (p', err) \<Rightarrow> if err \<noteq> None then (p', err) else setupPipes_loop ys p')"
  by (induction xs arbitrary: p) (simp_all add: Let_def split: prod.splits)

lemma setupPipes_loop_length:
  "setupPipes_loop js p = (p', err) \<Longrightarrow> length (Cmds p') = length (Cmds p)"
  by (induction js arbitrary: p) (auto simp: Let_def split: prod.splits if_splits)

lemma setupOutputHandler_length:
  "setupOutputHandler i p = Inr (p', err) \<Longrightarrow> length (Cmds p') = length (Cmds p)"
  by (auto simp: setupOutputHandler_def split: prod.splits if_splits)

lemma setupPipes_length:
  assumes "setupPipes p = Inr (p', err)"
  shows "Cmds p \<noteq> [] \<and> length (Cmds p') = length (Cmds p)"
  using assms
  by (auto simp: setupPipes_def Let_def setupPipes_loop_length setupOutputHandler_length
      split: prod.splits if_splits)

text \<open>One step of the wiring loop on a command whose standard output is free.\<close>

lemma setupPipes_step:
  assumes "cmd_Stdout (Cmds p ! i) = None" "cmd_Process (Cmds p ! i) = NotStarted"
    and "Suc i < length (Cmds p)"
  shows "setupPipes_loop [i] p =
     (p\<lparr>Cmds := (Cmds p)
         [i := (Cmds p ! i)\<lparr>cmd_Stdout := Some (PipeWrite (OutPipe i)),
                             cmd_Stderr := Some ErrBuffer\<rparr>,
          Suc i := (Cmds p ! Suc i)\<lparr>cmd_Stdin := Some (PipeRead (OutPipe i))\<rparr>]\<rparr>, None)"
  using assms
  by (simp add: cmd_StdoutPipe_def Let_def list_update_swap [of i "Suc i"])

lemma setupPipes_loop_fresh:
  assumes "b < length (Cmds p)"
    and "\<forall>j<b. cmd_Stdout (Cmds p ! j) = None \<and> cmd_Process (Cmds p ! j) = NotStarted"
  shows "\<exists>cs. setupPipes_loop [0..<b] p = (p\<lparr>Cmds := cs\<rparr>, None)
     \<and> length cs = length (Cmds p)
     \<and> (\<forall>j<b. cmd_Stdout (cs ! j) = Some (PipeWrite (OutPipe j))
              \<and> cmd_Stdin (cs ! Suc j) = Some (PipeRead (OutPipe j)))
     \<and> (\<forall>j. b \<le> j \<and> j < length cs \<longrightarrow>
              cmd_Stdout (cs ! j) = cmd_Stdout (Cmds p ! j)
            \<and> cmd_Stderr (cs ! j) = cmd_Stderr (Cmds p ! j))
     \<and> (\<forall>j<length cs. cmd_Process (cs ! j) = cmd_Process (Cmds p ! j)
            \<and> cmd_Args (cs ! j) = cmd_Args (Cmds p ! j)
            \<and> cmd_Env (cs ! j) = cmd_Env (Cmds p ! j))"
  using assms
proof (induction b)
  case 0
  have "p\<lparr>Cmds := Cmds p\<rparr> = p" by simp
  then show ?case
    by (intro exI [of _ "Cmds p"]) simp
next
  case (Suc b)
  from Suc.prems have "b < length (Cmds p)"
    and "\<forall>j<b. cmd_Stdout (Cmds p ! j) = None \<and> cmd_Process (Cmds p ! j) = NotStarted"
    by simp_all
  from Suc.IH [OF this] obtain cs where
    loop: "setupPipes_loop [0..<b] p = (p\<lparr>Cmds := cs\<rparr>, None)"
    and len: "length cs = length (Cmds p)"
    and wired: "\<forall>j<b. cmd_Stdout (cs ! j) = Some (PipeWrite (OutPipe j))
              \<and> cmd_Stdin (cs ! Suc j) = Some (PipeRead (OutPipe j))"
    and rest: "\<forall>j. b \<le> j \<and> j < length cs \<longrightarrow>
              cmd_Stdout (cs ! j) = cmd_Stdout (Cmds p ! j)
            \<and> cmd_Stderr (cs ! j) = cmd_Stderr (Cmds p ! j)"
    and same: "\<forall>j<length cs. cmd_Process (cs ! j) = cmd_Process (Cmds p ! j)
            \<and> cmd_Args (cs ! j) = cmd_Args (Cmds p ! j)
            \<and> cmd_Env (cs ! j) = cmd_Env (Cmds p ! j)"
    by blast
  let ?cs = "cs[b := (cs ! b)\<lparr>cmd_Stdout := Some (PipeWrite (OutPipe b)),
                             cmd_Stderr := Some ErrBuffer\<rparr>,
          Suc b := (cs ! Suc b)\<lparr>cmd_Stdin := Some (PipeRead (OutPipe b))\<rparr>]"
  from Suc.prems len rest same
  have free: "cmd_Stdout (cs ! b) = None" "cmd_Process (cs ! b) = NotStarted"
    by simp_all
  from Suc.prems len have sb: "Suc b < length (Cmds (p\<lparr>Cmds := cs\<rparr>))"
    by simp
  have step: "setupPipes_loop [b] (p\<lparr>Cmds := cs\<rparr>) = (p\<lparr>Cmds := ?cs\<rparr>, None)"
    using setupPipes_step [of "p\<lparr>Cmds := cs\<rparr>" b] free sb by simp
  have "setupPipes_loop [0..<Suc b] p = (p\<lparr>Cmds := ?cs\<rparr>, None)"
    using loop step by (simp add: setupPipes_loop_append del: setupPipes_loop.simps)
  moreover have "length ?cs = length (Cmds p)"
    using len by simp
  moreover have "\<forall>j<Suc b. cmd_Stdout (?cs ! j) = Some (PipeWrite (OutPipe j))
              \<and> cmd_Stdin (?cs ! Suc j) = Some (PipeRead (OutPipe j))"
    using wired sb len by (auto simp: nth_list_update less_Suc_eq)
  moreover have "\<forall>j. Suc b \<le> j \<and> j < length ?cs \<longrightarrow>
              cmd_Stdout (?cs ! j) = cmd_Stdout (Cmds p ! j)
            \<and> cmd_Stderr (?cs ! j) = cmd_Stderr (Cmds p ! j)"
    using rest sb len by (auto simp: nth_list_update)
  moreover have "\<forall>j<length ?cs. cmd_Process (?cs ! j) = cmd_Process (Cmds p ! j)
            \<and> cmd_Args (?cs ! j) = cmd_Args (Cmds p ! j)
            \<and> cmd_Env (?cs ! j) = cmd_Env (Cmds p ! j)"
    using same sb len by (auto simp: nth_list_update)
  ultimately show ?case
    by blast
qed

lemma setupPipes_fresh:
  assumes ne: "Cmds p \<noteq> []" and fr: "\<forall>c \<in> set (Cmds p). fresh c"
  shows "\<exists>cs. setupPipes p = Inr (p\<lparr>Cmds := cs, outputWait := Some 2\<rparr>, None)
     \<and> length cs = length (Cmds p)
     \<and> (\<forall>j. Suc j < length cs \<longrightarrow>
            cmd_Stdout (cs ! j) = Some (PipeWrite (OutPipe j))
          \<and> cmd_Stdin (cs ! Suc j) = Some (PipeRead (OutPipe j)))
     \<and> (\<forall>j<length cs. cmd_Process (cs ! j) = NotStarted
            \<and> cmd_Args (cs ! j) = cmd_Args (Cmds p ! j)
            \<and> cmd_Env (cs ! j) = cmd_Env (Cmds p ! j))"
proof -
  let ?l = "length (Cmds p) - 1"
  from ne have l: "?l < length (Cmds p)"
    by (cases "Cmds p") simp_all
  from fr have fr': "\<forall>j<length (Cmds p). cmd_Stdout (Cmds p ! j) = None
      \<and> cmd_Stderr (Cmds p ! j) = None \<and> cmd_Process (Cmds p ! j) = NotStarted"
    by (simp add: fresh_def)
  with l have "\<forall>j<?l. cmd_Stdout (Cmds p ! j) = None \<and> cmd_Process (Cmds p ! j) = NotStarted"
    by simp
  from setupPipes_loop_fresh [OF l this] obtain cs where
    loop: "setupPipes_loop [0..<?l] p = (p\<lparr>Cmds := cs\<rparr>, None)"
    and len: "length cs = length (Cmds p)"
    and wired: "\<forall>j<?l. cmd_Stdout (cs ! j) = Some (PipeWrite (OutPipe j))
              \<and> cmd_Stdin (cs ! Suc j) = Some (PipeRead (OutPipe j))"
    and rest: "\<forall>j. ?l \<le> j \<and> j < length cs \<longrightarrow>
              cmd_Stdout (cs ! j) = cmd_Stdout (Cmds p ! j)
            \<and> cmd_Stderr (cs ! j) = cmd_Stderr (Cmds p ! j)"
    and same: "\<forall>j<length cs. cmd_Process (cs ! j) = cmd_Process (Cmds p ! j)
            \<and> cmd_Args (cs ! j) = cmd_Args (Cmds p ! j)
            \<and> cmd_Env (cs ! j) = cmd_Env (Cmds p ! j)"
    by blast
  let ?c = "(cs ! ?l)\<lparr>cmd_Stdout := Some (PipeWrite (OutPipe ?l)),
                      cmd_Stderr := Some (PipeWrite (ErrPipe ?l))\<rparr>"
  from l len rest same fr' have last_free: "cmd_Stdout (cs ! ?l) = None"
    "cmd_Stderr (cs ! ?l) = None" "cmd_Process (cs ! ?l) = NotStarted"
    by simp_all
  then have handler: "setupOutputHandler ?l (p\<lparr>Cmds := cs\<rparr>)
      = Inr (p\<lparr>Cmds := cs[?l := ?c], outputWait := Some 2\<rparr>, None)"
    by (simp add: setupOutputHandler_def cmd_StdoutPipe_def cmd_StderrPipe_def)
  from ne have nat_last: "nat (int (length (Cmds p)) - 1) = ?l"
    and nonneg: "\<not> int (length (Cmds p)) - 1 < 0"
    by (cases "Cmds p"; simp)+
  have "setupPipes p = Inr (p\<lparr>Cmds := cs[?l := ?c], outputWait := Some 2\<rparr>, None)"
    using loop handler nonneg by (simp add: setupPipes_def Let_def nat_last)
  moreover have "length (cs[?l := ?c]) = length (Cmds p)"
    using len by simp
  moreover have "\<forall>j. Suc j < length (cs[?l := ?c]) \<longrightarrow>
            cmd_Stdout (cs[?l := ?c] ! j) = Some (PipeWrite (OutPipe j))
          \<and> cmd_Stdin (cs[?l := ?c] ! Suc j) = Some (PipeRead (OutPipe j))"
    using wired len l by (auto simp: nth_list_update)
  moreover have "\<forall>j<length (cs[?l := ?c]). cmd_Process (cs[?l := ?c] ! j) = NotStarted
            \<and> cmd_Args (cs[?l := ?c] ! j) = cmd_Args (Cmds p ! j)
            \<and> cmd_Env (cs[?l := ?c] ! j) = cmd_Env (Cmds p ! j)"
    using same len l fr' by (auto simp: nth_list_update)
  ultimately show ?thesis
    by blast
qed

lemma start_at_None:
  assumes "start_at w i p = (p', None)"
  shows "Cmds p' = (Cmds p)[i := (Cmds p ! i)\<lparr>cmd_Process := Running\<rparr>]"
  using assms
  by (auto simp: start_at_def cmd_Start_def split: if_splits option.splits)

lemma start_loop_None:
  assumes "start_loop w js p = (p', None)"
  shows "length (Cmds p') = length (Cmds p)
     \<and> (\<forall>i<length (Cmds p). i \<in> set js \<or> cmd_Process (Cmds p ! i) \<noteq> NotStarted
          \<longrightarrow> cmd_Process (Cmds p' ! i) \<noteq> NotStarted)"
  using assms
proof (induction js arbitrary: p)
  case Nil
  then show ?case by simp
next
  case (Cons j js)
  obtain p1 err where st: "start_at w j p = (p1, err)"
    by (cases "start_at w j p")
  with Cons.prems have err: "err = None" and rest: "start_loop w js p1 = (p', None)"
    by (auto split: if_splits)
  from st err have cs: "Cmds p1 = (Cmds p)[j := (Cmds p ! j)\<lparr>cmd_Process := Running\<rparr>]"
    by (simp add: start_at_None)
  from cs have len1: "length (Cmds p1) = length (Cmds p)"
    by simp
  have step: "i \<in> set js \<or> cmd_Process (Cmds p1 ! i) \<noteq> NotStarted"
    if "i < length (Cmds p)"
      and "i \<in> set (j # js) \<or> cmd_Process (Cmds p ! i) \<noteq> NotStarted" for i
    using that cs by (cases "i = j") auto
  from Cons.IH [OF rest] len1 step show ?case
    by (metis list.set_intros(2))
qed

lemma Start_not_nil: "Start w p \<noteq> Inr (p', None)"
proof
  assume a: "Start w p = Inr (p', None)"
  then obtain p1 where f: "findCmds w p = Inr p1"
    by (auto simp: Start_def split: sum.splits)
  with a obtain p2 e where s: "setupPipes p1 = Inr (p2, e)"
    by (auto simp: Start_def split: sum.splits)
  obtain p3 err where st: "start w p2 = (p3, err)"
    by (cases "start w p2")
  with a f s have err: "err = None"
    and again: "start_loop w [0..<length (Cmds p3)] p3 = (p', None)"
    by (auto simp: Start_def split: if_splits)
  have ne: "Cmds p2 \<noteq> []"
    using setupPipes_length [OF s] by (metis length_0_conv)
  from st err have "start_loop w [0..<length (Cmds p2)] p2 = (p3, None)"
    by (simp add: start_def)
  from start_loop_None [OF this] ne
  have len: "0 < length (Cmds p3)" and started: "cmd_Process (Cmds p3 ! 0) \<noteq> NotStarted"
    by auto
  from len have "[0..<length (Cmds p3)] = 0 # [1..<length (Cmds p3)]"
    by (simp add: upt_conv_Cons)
  with again started show False
    by (simp add: start_at_refused)
qed

lemma map_update_same: "f c = f (cs ! i) \<Longrightarrow> map f (cs[i := c]) = map f cs"
  by (metis list_update_id map_update)

lemma cmd_StdoutPipe_process: "cmd_StdoutPipe i c = (c', r, e) \<Longrightarrow> cmd_Process c' = cmd_Process c"
  by (auto simp: cmd_StdoutPipe_def split: if_splits)

lemma cmd_StderrPipe_process: "cmd_StderrPipe i c = (c', r, e) \<Longrightarrow> cmd_Process c' = cmd_Process c"
  by (auto simp: cmd_StderrPipe_def split: if_splits)

lemma setupPipes_loop_process:
  "setupPipes_loop js p = (p', err) \<Longrightarrow>
     map cmd_Process (Cmds p') = map cmd_Process (Cmds p) \<and> calls p' = calls p"
proof (induction js arbitrary: p)
  case Nil
  then show ?case by simp
next
  case (Cons i js)
  obtain c r e where pipe: "cmd_StdoutPipe i (Cmds p ! i) = (c, r, e)"
    by (cases "cmd_StdoutPipe i (Cmds p ! i)")
  let ?cmds1 = "(Cmds p)[i := c]"
  let ?cmds2 = "?cmds1[Suc i := (?cmds1 ! Suc i)\<lparr>cmd_Stdin := r\<rparr>]"
  let ?cmds3 = "?cmds2[i := (?cmds2 ! i)\<lparr>cmd_Stderr := Some ErrBuffer\<rparr>]"
  have m1: "map cmd_Process ?cmds1 = map cmd_Process (Cmds p)"
    using cmd_StdoutPipe_process [OF pipe] by (rule map_update_same)
  have m2: "map cmd_Process ?cmds2 = map cmd_Process ?cmds1"
    by (rule map_update_same) simp
  have m3: "map cmd_Process ?cmds3 = map cmd_Process ?cmds2"
    by (rule map_update_same) simp
  show ?case
  proof (cases "e = None")
    case True
    with Cons.prems pipe have "setupPipes_loop js (p\<lparr>Cmds := ?cmds3\<rparr>) = (p', err)"
      by (simp add: Let_def)
    from Cons.IH [OF this] m1 m2 m3 show ?thesis
      by simp
  next
    case False
    with Cons.prems pipe have "p' = p\<lparr>Cmds := ?cmds2\<rparr>"
      by (simp add: Let_def)
    with m1 m2 show ?thesis
      by simp
  qed
qed

lemma setupOutputHandler_process:
  assumes "setupOutputHandler i p = Inr (p', err)"
  shows "map cmd_Process (Cmds p') = map cmd_Process (Cmds p) \<and> calls p' = calls p"
proof -
  obtain c1 r1 e1 where p1: "cmd_StdoutPipe i (Cmds p ! i) = (c1, r1, e1)"
    by (cases "cmd_StdoutPipe i (Cmds p ! i)")
  obtain c2 r2 e2 where p2: "cmd_StderrPipe i c1 = (c2, r2, e2)"
    by (cases "cmd_StderrPipe i c1")
  from assms p1 p2 have p': "p' = p\<lparr>Cmds := (Cmds p)[i := c2], outputWait := Some 2\<rparr>"
    by (auto simp: setupOutputHandler_def split: if_splits)
  have "cmd_Process c2 = cmd_Process (Cmds p ! i)"
    using cmd_StdoutPipe_process [OF p1] cmd_StderrPipe_process [OF p2] by simp
  then have "map cmd_Process ((Cmds p)[i := c2]) = map cmd_Process (Cmds p)"
    by (rule map_update_same)
  with p' show ?thesis
    by simp
qed

lemma setupPipes_process:
  assumes "setupPipes p = Inr (p', err)"
  shows "map cmd_Process (Cmds p') = map cmd_Process (Cmds p) \<and> calls p' = calls p"
proof -
  let ?l = "nat (int (length (Cmds p)) - 1)"
  obtain p1 e1 where loop: "setupPipes_loop [0..<?l] p = (p1, e1)"
    by (cases "setupPipes_loop [0..<?l] p")
  note l = setupPipes_loop_process [OF loop]
  show ?thesis
  proof (cases "e1 = None")
    case True
    with assms loop have "setupOutputHandler ?l p1 = Inr (p', err)"
      by (auto simp: setupPipes_def Let_def split: if_splits)
    from setupOutputHandler_process [OF this] l show ?thesis
      by simp
  next
    case False
    with assms loop have "p' = p1"
      by (auto simp: setupPipes_def Let_def split: if_splits)
    with l show ?thesis
      by simp
  qed
qed

lemma all_not_started:
  assumes "map cmd_Process cs' = map cmd_Process cs" "\<forall>c \<in> set cs. cmd_Process c = NotStarted"
  shows "\<forall>c \<in> set cs'. cmd_Process c = NotStarted"
proof -
  from assms(2) have "\<forall>s \<in> set (map cmd_Process cs). s = NotStarted"
    by simp
  with assms(1) have "\<forall>s \<in> set (map cmd_Process cs'). s = NotStarted"
    by simp
  then show ?thesis
    by simp
qed

text \<open>Every stage launches: \<^verbatim>\<open>start\<close> returns nil, with every stage running.\<close>

lemma start_all_ok:
  assumes "\<forall>c \<in> set (Cmds p). cmd_Process c = NotStarted"
    and "\<forall>i<length (Cmds p). os_start w i = None"
  shows "start w p =
     (p\<lparr>Cmds := set_state Running [0..<length (Cmds p)] (Cmds p),
        calls := calls p @ map CallStart [0..<length (Cmds p)]\<rparr>, None)"
  unfolding start_def
  by (rule start_loop_ok) (use assms in auto)

lemma Wait_last:
  assumes "Cmds p \<noteq> []" and "cmd_Process (last (Cmds p)) = Running"
  shows "Wait w p =
     Inr (p\<lparr>Cmds := (Cmds p)[length (Cmds p) - 1 := (last (Cmds p))\<lparr>cmd_Process := Finished\<rparr>],
            calls := calls p @ [CallWait (length (Cmds p) - 1)]\<rparr>,
          if os_exit w (length (Cmds p) - 1) = 0 then None
          else Some (ExitError (os_exit w (length (Cmds p) - 1))))"
proof -
  from assms(1) have nat_last: "nat (int (length (Cmds p)) - 1) = length (Cmds p) - 1"
    and nonneg: "\<not> int (length (Cmds p)) - 1 < 0"
    by (cases "Cmds p"; simp)+
  from assms(1) have l: "Cmds p ! (length (Cmds p) - 1) = last (Cmds p)"
    by (simp add: last_conv_nth)
  with assms(2) have "cmd_Process (Cmds p ! (length (Cmds p) - 1)) = Running"
    by simp
  from wait_at_running [OF this, of w] nonneg l show ?thesis
    by (simp add: Wait_def Let_def nat_last)
qed

section \<open>Properties of the line reader\<close>

lemma IndexByte_None: "(IndexByte buf c = None) = (c \<notin> set buf)"
  by (induction buf) auto

lemma IndexByte_Some:
  "IndexByte buf c = Some i \<Longrightarrow> buf = take i buf @ c # drop (Suc i) buf \<and> c \<notin> set (take i buf)"
proof (induction buf arbitrary: i)
  case Nil
  then show ?case by simp
next
  case (Cons x xs)
  then show ?case
    by (cases "x = c") (auto split: if_splits)
qed

lemma lines_from_no_newline:
  "CHR 0x0A \<notin> set xs \<Longrightarrow> lines_from cur (xs @ ys) = lines_from (cur @ xs) ys"
  by (induction xs arbitrary: cur) auto

lemma pending_no_newline:
  "CHR 0x0A \<notin> set xs \<Longrightarrow> pending cur (xs @ ys) = pending (cur @ xs) ys"
  by (induction xs arbitrary: cur) auto

lemma lines_from_append:
  "lines_from cur (xs @ ys) = lines_from cur xs @ lines_from (pending cur xs) ys"
  by (induction xs arbitrary: cur) simp_all

lemma lines_from_at_newline:
  assumes "IndexByte buf (CHR 0x0A) = Some i"
  shows "lines_from cur buf = (cur @ take i buf) # lines_from [] (drop (Suc i) buf)"
    and "pending cur buf = pending [] (drop (Suc i) buf)"
proof -
  from IndexByte_Some [OF assms]
  have split: "buf = take i buf @ CHR 0x0A # drop (Suc i) buf"
    and no: "CHR 0x0A \<notin> set (take i buf)"
    by simp_all
  have "lines_from cur (take i buf @ CHR 0x0A # drop (Suc i) buf)
      = (cur @ take i buf) # lines_from [] (drop (Suc i) buf)"
    by (simp add: lines_from_no_newline [OF no])
  with split show "lines_from cur buf = (cur @ take i buf) # lines_from [] (drop (Suc i) buf)"
    by simp
  have "pending cur (take i buf @ CHR 0x0A # drop (Suc i) buf) = pending [] (drop (Suc i) buf)"
    by (simp add: pending_no_newline [OF no])
  with split show "pending cur buf = pending [] (drop (Suc i) buf)"
    by simp
qed

lemma transform_outBuffer [simp]: "transform (p\<lparr>outBuffer := b\<rparr>) = transform p"
  by (rule ext) (simp add: transform_def)

lemma lineReader_inner_result:
  "case lineReader_inner p buf buffer of
     (p', rest, buffer') \<Rightarrow>
       p' = p\<lparr>outBuffer := outBuffer p @ concat (map (transform p) (lines_from buffer buf))\<rparr>
       \<and> buffer' @ rest = pending buffer buf"
proof (induction p buf buffer rule: lineReader_inner.induct)
  case (1 p buf buffer)
  show ?case
  proof (cases "IndexByte buf (CHR 0x0A)")
    case None
    then have "CHR 0x0A \<notin> set buf"
      by (simp add: IndexByte_None)
    then have "lines_from buffer buf = []" "pending buffer buf = buffer @ buf"
      using lines_from_no_newline [of buf buffer "[]"] pending_no_newline [of buf buffer "[]"]
      by simp_all
    with None show ?thesis
      by (subst lineReader_inner.simps) simp
  next
    case (Some i)
    let ?line = "buffer @ take i buf"
    let ?p1 = "p\<lparr>outBuffer := outBuffer p @ transform p ?line\<rparr>"
    have IH: "case lineReader_inner ?p1 (drop (i + 1) buf) [] of
        (p', rest, buffer') \<Rightarrow>
          p' = ?p1\<lparr>outBuffer := outBuffer ?p1
                 @ concat (map (transform ?p1) (lines_from [] (drop (i + 1) buf)))\<rparr>
          \<and> buffer' @ rest = pending [] (drop (i + 1) buf)"
      using "1.IH" [OF Some refl refl] by (simp add: transform_def [symmetric])
    have unfold: "lineReader_inner p buf buffer = lineReader_inner ?p1 (drop (i + 1) buf) []"
      using Some by (subst lineReader_inner.simps) (simp add: transform_def [symmetric])
    from IH show ?thesis
      unfolding unfold
      by (simp add: lines_from_at_newline [OF Some] split: prod.splits)
  qed
qed

lemma lineReader_loop_result:
  assumes "r k = ReadErr" and "\<forall>m. n \<le> m \<and> m < k \<longrightarrow> r m \<noteq> ReadErr" and "n \<le> k"
  shows "lineReader_loop r n buffer p =
     Some (p\<lparr>outBuffer := outBuffer p @ concat (map (transform p)
        (lines_from buffer
           (concat (map (\<lambda>m. case r m of Data buf \<Rightarrow> buf | ReadErr \<Rightarrow> []) [n..<k]))))\<rparr>)"
  using assms
proof (induction "k - n" arbitrary: n buffer p)
  case 0
  then have "n = k" by simp
  with "0.prems" show ?case
    by (subst lineReader_loop.simps) simp
next
  case (Suc d)
  then have lt: "n < k" by simp
  with Suc.prems obtain buf where rn: "r n = Data buf"
    by (cases "r n") auto
  obtain p' rest buffer' where inner: "lineReader_inner p buf buffer = (p', rest, buffer')"
    by (cases "lineReader_inner p buf buffer")
  with lineReader_inner_result [where p = p and buf = buf and buffer = buffer]
  have p': "p' = p\<lparr>outBuffer := outBuffer p @ concat (map (transform p) (lines_from buffer buf))\<rparr>"
    and pend: "buffer' @ rest = pending buffer buf"
    by simp_all
  have d: "d = k - Suc n" using Suc.hyps(2) by simp
  have rest_ok: "\<forall>m. Suc n \<le> m \<and> m < k \<longrightarrow> r m \<noteq> ReadErr"
    using Suc.prems(2) by simp
  have "lineReader_loop r n buffer p = lineReader_loop r (Suc n) (buffer' @ rest) p'"
    using rn inner by (subst lineReader_loop.simps) simp
  also have "\<dots> = Some (p'\<lparr>outBuffer := outBuffer p' @ concat (map (transform p')
        (lines_from (buffer' @ rest)
           (concat (map (\<lambda>m. case r m of Data buf \<Rightarrow> buf | ReadErr \<Rightarrow> []) [Suc n..<k]))))\<rparr>)"
    using Suc.hyps(1) [OF d Suc.prems(1) rest_ok] lt by simp
  finally show ?case
    using lt rn by (simp add: p' pend upt_conv_Cons lines_from_append)
qed

lemma lineReader_result:
  assumes "r k = ReadErr" and "\<forall>n<k. r n \<noteq> ReadErr" and "outputWait p = Some (Suc c)"
  shows "lineReader r p =
     Some (Inr (p\<lparr>outBuffer := outBuffer p
        @ concat (map (transform p) (complete_lines (stream_data r k))),
        outputWait := Some c\<rparr>))"
  using lineReader_loop_result [of r k 0 "[]" p] assms
  by (simp add: lineReader_def wg_Done_def complete_lines_def stream_data_def)

lemma lines_from_lines:
  assumes "\<forall>l \<in> set ls. CHR 0x0A \<notin> set l" and "CHR 0x0A \<notin> set tail"
  shows "lines_from cur (concat (map (\<lambda>l. l @ [CHR 0x0A]) ls) @ tail)
     = (case ls of [] \<Rightarrow> [] | l # ls' \<Rightarrow> (cur @ l) # ls')"
  using assms
proof (induction ls arbitrary: cur)
  case Nil
  then show ?case
    using lines_from_no_newline [of tail cur "[]"] by simp
next
  case (Cons l ls)
  then have "lines_from [] (concat (map (\<lambda>l. l @ [CHR 0x0A]) ls) @ tail) = ls"
    by (cases ls) simp_all
  with Cons.prems show ?case
    by (simp add: lines_from_no_newline)
qed

lemma complete_lines_lines:
  assumes "\<forall>l \<in> set ls. CHR 0x0A \<notin> set l" and "CHR 0x0A \<notin> set tail"
  shows "complete_lines (concat (map (\<lambda>l. l @ [CHR 0x0A]) ls) @ tail) = ls"
  using lines_from_lines [OF assms, of "[]"]
  by (cases ls) (simp_all add: complete_lines_def)

text \<open>The loop returns only if some read reports an error.\<close>

lemma lineReader_loop_Some_error:
  assumes "lineReader_loop r n buffer p = Some y"
  shows "\<exists>k\<ge>n. r k = ReadErr"
proof (rule lineReader_loop.raw_induct
        [where P = "\<lambda>r n buffer p y. \<exists>k\<ge>n. r k = ReadErr", OF _ assms])
  fix loop :: "(nat \<Rightarrow> read_result) \<Rightarrow> nat \<Rightarrow> string \<Rightarrow> Process \<Rightarrow> Process option"
    and r n buffer p y
  assume IH: "\<And>r n buffer p y. loop r n buffer p = Some y \<Longrightarrow> \<exists>k\<ge>n. r k = ReadErr"
    and body: "(case r n of
                  Data buf \<Rightarrow>
                    (case lineReader_inner p buf buffer of
                       (p', rest, buffer') \<Rightarrow> loop r (Suc n) (buffer' @ rest) p')
                | ReadErr \<Rightarrow> Some p) = Some y"
  show "\<exists>k\<ge>n. r k = ReadErr"
  proof (cases "r n")
    case (Data buf)
    with body obtain p' rest buffer' where "loop r (Suc n) (buffer' @ rest) p' = Some y"
      by (auto split: prod.splits)
    from IH [OF this] obtain k where "Suc n \<le> k" "r k = ReadErr"
      by blast
    then show ?thesis
      by (intro exI [of _ k]) simp
  next
    case ReadErr
    then show ?thesis
      by (intro exI [of _ n]) simp
  qed
qed

lemma lineReader_stream_of_single:
  assumes "outputWait p = Some (Suc c)"
  shows "lineReader (stream_of [body]) p =
     Some (Inr (p\<lparr>outBuffer := outBuffer p @ concat (map (transform p) (complete_lines body)),
        outputWait := Some c\<rparr>))"
proof -
  have "stream_of [body] 1 = ReadErr" "\<forall>n<1. stream_of [body] n \<noteq> ReadErr"
    "stream_data (stream_of [body]) 1 = body"
    by (simp_all add: stream_of_def stream_data_def)
  with lineReader_result [of "stream_of [body]" 1 p c] assms show ?thesis
    by simp
qed

lemma complete_lines_tail:
  "CHR 0x0A \<notin> set tail \<Longrightarrow> complete_lines (body @ tail) = complete_lines body"
  using lines_from_no_newline [of tail "pending [] body" "[]"]
  by (simp add: complete_lines_def lines_from_append)

section \<open>The claims\<close>

text \<open>
  C1. The claim: with an override mapping (\<^verbatim>\<open>Env\<close> non-nil) a reference
  \<^verbatim>\<open>$NAME\<close> or \<^verbatim>\<open>${NAME}\<close> is resolved only against the mapping, a missing key
  giving the empty string, and with no mapping it is resolved against the ambient
  environment. The code does the reverse (\<open>expand_Env_Some\<close>, \<open>expand_Env_None\<close>).
  Evaluated: with the mapping \<^verbatim>\<open>{FOO: bar}\<close> and \<^verbatim>\<open>FOO\<close> unset in the ambient
  environment, \<^verbatim>\<open>$FOO\<close> becomes the empty string; with the same mapping and the
  ambient \<^verbatim>\<open>FOO=baz\<close>, \<^verbatim>\<open>${FOO}\<close> becomes \<^verbatim>\<open>baz\<close>; with no mapping and the
  ambient \<^verbatim>\<open>FOO=baz\<close>, \<^verbatim>\<open>$FOO\<close> becomes the empty string; and so do the arguments
  of the stage built from \<^verbatim>\<open>echo $FOO\<close>.
\<close>

theorem C1_override_not_consulted:
  "expand (system_of [] [] []) ((NewProcess ''echo $FOO'')\<lparr>Env := Some [(''FOO'', ''bar'')]\<rparr>)
     ''$FOO'' = ''''
   \<and> expand (system_of [(''FOO'', ''baz'')] [] [])
       ((NewProcess ''echo $FOO'')\<lparr>Env := Some [(''FOO'', ''bar'')]\<rparr>) ''${FOO}'' = ''baz''
   \<and> expand (system_of [(''FOO'', ''baz'')] [] []) (NewProcess ''echo $FOO'') ''$FOO'' = ''''
   \<and> map_sum id (map cmd_Args \<circ> Cmds)
     (findCmds (system_of [] [] [])
        ((NewProcess ''echo $FOO'')\<lparr>Env := Some [(''FOO'', ''bar'')]\<rparr>))
     = Inr [[''echo'', '''']]
   \<and> map_sum id (map cmd_Args \<circ> Cmds)
     (findCmds (system_of [(''FOO'', ''baz'')] [] [])
        ((NewProcess ''echo $FOO'')\<lparr>Env := Some [(''FOO'', ''bar'')]\<rparr>))
     = Inr [[''echo'', ''baz'']]
   \<and> map_sum id (map cmd_Args \<circ> Cmds)
     (findCmds (system_of [(''FOO'', ''baz'')] [] []) (NewProcess ''echo $FOO''))
     = Inr [[''echo'', '''']]"
  by (simp add: build_defs tokenizer_defs expand_defs)

text \<open>
  What \<^verbatim>\<open>Wait\<close> and \<^verbatim>\<open>Run\<close> return in general. \<^verbatim>\<open>Wait\<close>, on a pipeline whose
  terminal stage is running, returns what \<^verbatim>\<open>Wait\<close> of that one stage returns, whatever
  the statuses of the earlier stages. \<^verbatim>\<open>Run\<close> returns a nil error whenever every
  stage starts, whatever the exit statuses.
\<close>

lemma Wait_returns_last_result:
  assumes "Cmds p \<noteq> []" and "cmd_Process (last (Cmds p)) = Running"
  shows "map_sum id snd (Wait w p) =
        Inr (if os_exit w (length (Cmds p) - 1) = 0 then None
             else Some (ExitError (os_exit w (length (Cmds p) - 1))))"
  using assms by (simp add: Wait_last)

lemma Run_nil_when_all_start:
  assumes "findCmds w q = Inr q0" and s: "setupPipes q0 = Inr (q1, e)"
    and "\<forall>c \<in> set (Cmds q0). cmd_Process c = NotStarted"
    and "\<forall>i<length (Cmds q0). os_start w i = None"
  shows "map_sum id (snd \<circ> snd) (Run w q) = Inr None"
proof -
  from setupPipes_process [OF s] setupPipes_length [OF s] assms
  have "\<forall>c \<in> set (Cmds q1). cmd_Process c = NotStarted"
    and "\<forall>i<length (Cmds q1). os_start w i = None"
    using all_not_started [of "Cmds q1" "Cmds q0"] by simp_all
  from start_all_ok [OF this] assms show ?thesis
    by (simp add: Run_def wait_def)
qed

text \<open>
  C2. The claim: when the terminal stage exits with a non-zero or abnormal status, both
  \<^verbatim>\<open>Wait\<close> and \<^verbatim>\<open>Run\<close> return that stage's own exit error. \<^verbatim>\<open>Wait\<close> does;
  \<^verbatim>\<open>Run\<close> does not: it waits on every stage through \<^verbatim>\<open>wait\<close>, which drops the
  result of each \<^verbatim>\<open>Wait\<close> and returns nil, and drops the result of \<^verbatim>\<open>wait\<close> too.
  Evaluated on \<^verbatim>\<open>false\<close>, which starts and exits with status 1: \<^verbatim>\<open>Run\<close> returns a
  nil error, where \<^verbatim>\<open>Wait\<close> after \<^verbatim>\<open>Start\<close> returns the exit error of status 1.
\<close>

theorem C2_run_drops_exit_error:
  "os_exit (system_of [] [] [1]) 0 = 1
   \<and> map_sum id (snd \<circ> snd) (Run (system_of [] [] [1]) (NewProcess ''false'')) = Inr None
   \<and> map_sum id snd
        (Wait (system_of [] [] [1])
           (fst (projr (Start (system_of [] [] [1]) (NewProcess ''false'')))))
      = Inr (Some (ExitError 1))"
  by (simp add: build_defs tokenizer_defs expand_defs run_defs)

text \<open>
  C3. The claim: a command string whose pipe splitting gives an empty word group (a
  leading pipe, a trailing pipe or two adjacent pipes) makes building signal a
  configuration error to the caller, and not fail in an uncontrolled way. In the code,
  for every such command string (and no commands given beforehand) \<^verbatim>\<open>findCmds\<close>
  panics in \<^verbatim>\<open>addCmd\<close>, which reads the first part of an empty group, and so do
  \<^verbatim>\<open>Run\<close> and \<^verbatim>\<open>Start\<close>; no error value is returned.
\<close>

theorem C3_empty_group_panics:
  assumes "Cmds p = []" and "CmdString p \<noteq> []"
    and "SplitCommand w (CmdString p) = Inr toks"
    and "[] \<in> set (word_groups toks)"
  shows "findCmds w p = Inl PanicSliceBounds
    \<and> Run w p = Inl PanicSliceBounds
    \<and> Start w p = Inl PanicSliceBounds"
proof -
  from assms(4) have "[] \<in> set (word_groups (map (expand w p) toks))"
    using empty_group_map [of "expand w p" toks] by (simp add: expand_pipe)
  with assms(1-3) have "findCmds w p = Inl PanicSliceBounds"
    by (simp add: findCmds_built)
  then show ?thesis
    by (simp add: Run_findCmds_Inl Start_findCmds_Inl)
qed

theorem C3_empty_group_panics_witness:
  "Cmds (NewProcess ''a | | b'') = []
   \<and> CmdString (NewProcess ''a | | b'') \<noteq> []
   \<and> SplitCommand (system_of [] [] []) (CmdString (NewProcess ''a | | b''))
       = Inr [''a'', ''|'', ''|'', ''b'']
   \<and> [] \<in> set (word_groups [''a'', ''|'', ''|'', ''b''])
   \<and> findCmds (system_of [] [] []) (NewProcess ''a | | b'') = Inl PanicSliceBounds
   \<and> Run (system_of [] [] []) (NewProcess ''a | | b'') = Inl PanicSliceBounds
   \<and> Start (system_of [] [] []) (NewProcess ''a | | b'') = Inl PanicSliceBounds"
proof -
  let ?w = "system_of [] [] []" and ?p = "NewProcess ''a | | b''"
  have h1: "Cmds ?p = []" and h2: "CmdString ?p \<noteq> []"
    by (simp_all add: NewProcess_def)
  have h3: "SplitCommand ?w (CmdString ?p) = Inr [''a'', ''|'', ''|'', ''b'']"
    by (simp add: NewProcess_def system_of_def tokenizer_defs)
  have h4: "[] \<in> set (word_groups [''a'', ''|'', ''|'', ''b''])"
    by simp
  show ?thesis
    using h1 h2 h3 h4 C3_empty_group_panics [OF h1 h2 h3 h4] by simp
qed

text \<open>
  C4. The claim: when all stages can start, \<^verbatim>\<open>Start\<close> starts each stage exactly once,
  in order, and returns an error only when some stage fails to start. In the code
  \<^verbatim>\<open>Start\<close> never returns nil: after \<^verbatim>\<open>p.start()\<close> has started every stage, the
  second loop calls \<^verbatim>\<open>Start\<close> on the first stage again, which is refused as already
  started, and that error is returned. Evaluated on \<^verbatim>\<open>echo hi\<close>, which can start.
\<close>

theorem C4_Start_reports_error:
  "Start w p \<noteq> Inr (p', None)
   \<and> map_sum id (\<lambda>(p, err). (calls p, err))
       (Start (system_of [] [] []) (NewProcess ''echo hi''))
     = Inr ([CallStart 0, CallStart 0], Some AlreadyStarted)"
proof
  show "Start w p \<noteq> Inr (p', None)"
    by (rule Start_not_nil)
  show "map_sum id (\<lambda>(p, err). (calls p, err))
       (Start (system_of [] [] []) (NewProcess ''echo hi''))
     = Inr ([CallStart 0, CallStart 0], Some AlreadyStarted)"
    by (simp add: build_defs tokenizer_defs expand_defs run_defs)
qed

text \<open>
  C5. When the launch of stage \<open>k\<close> fails (the stages before it launch, and none has
  been started before), \<^verbatim>\<open>start\<close> stops there: it has called \<^verbatim>\<open>Start\<close> on the stages
  0 to \<open>k\<close> in order and on no later stage, it then waits on the stages 0 to \<open>k - 1\<close>
  in order, so that these are finished and the stages from \<open>k\<close> on are not started, and
  it returns the launch error; \<^verbatim>\<open>Run\<close> and \<^verbatim>\<open>Start\<close> return that same error.
\<close>

theorem C5_launch_failure:
  assumes "findCmds w q = Inr q0" and "setupPipes q0 = Inr (p, e0)"
    and "\<forall>c \<in> set (Cmds q0). cmd_Process c = NotStarted"
    and "k < length (Cmds q0)" and "os_start w k = Some msg"
    and "\<forall>j<k. os_start w j = None"
  shows "\<exists>p'. start w p = (p', Some (StartError msg))
     \<and> Run w q = Inr (p', [], Some (StartError msg))
     \<and> Start w q = Inr (p', Some (StartError msg))
     \<and> calls p' = calls q0 @ map CallStart [0..<Suc k] @ map CallWait [0..<k]
     \<and> map cmd_Process (Cmds p')
         = replicate k Finished @ replicate (length (Cmds q0) - k) NotStarted"
proof -
  note pr = setupPipes_process [OF assms(2)] and len = setupPipes_length [OF assms(2)]
  from pr assms(3) have fresh: "\<forall>c \<in> set (Cmds p). cmd_Process c = NotStarted"
    using all_not_started [of "Cmds p" "Cmds q0"] by simp
  from len assms(4) have k: "k < length (Cmds p)"
    by simp
  let ?p' = "p\<lparr>Cmds := set_state Finished [0..<k] (set_state Running [0..<k] (Cmds p)),
        calls := calls p @ map CallStart [0..<Suc k] @ map CallWait [0..<k]\<rparr>"
  have st: "start w p = (?p', Some (StartError msg))"
    by (rule start_fails_at [OF fresh k assms(5,6)])
  moreover from st assms(1,2) have "Run w q = Inr (?p', [], Some (StartError msg))"
    by (simp add: Run_def)
  moreover from st assms(1,2) have "Start w q = Inr (?p', Some (StartError msg))"
    by (simp add: Start_def)
  moreover from pr have "calls ?p' = calls q0 @ map CallStart [0..<Suc k] @ map CallWait [0..<k]"
    by simp
  moreover have "map cmd_Process (Cmds ?p')
         = replicate k Finished @ replicate (length (Cmds q0) - k) NotStarted"
    using states_after_failure [OF fresh, of k] k len by simp
  ultimately show ?thesis
    by blast
qed

theorem C5_launch_failure_witness:
  "map_sum id (\<lambda>(p, out, err). (map cmd_Process (Cmds p), calls p, out, err))
     (Run (system_of [] [None, None, Some ''not found''] []) (NewProcess ''a | b | c''))
   = Inr ([Finished, Finished, NotStarted],
          [CallStart 0, CallStart 1, CallStart 2, CallWait 0, CallWait 1],
          [], Some (StartError ''not found''))"
proof -
  let ?w = "system_of [] [None, None, Some ''not found''] []" and ?q = "NewProcess ''a | b | c''"
  let ?built = "projr (findCmds ?w ?q)"
  let ?p = "fst (projr (setupPipes ?built))" and ?e = "snd (projr (setupPipes ?built))"
  have h1: "findCmds ?w ?q = Inr ?built"
    by (simp add: build_defs tokenizer_defs expand_defs)
  have h2: "setupPipes ?built = Inr (?p, ?e)"
    by (simp add: build_defs tokenizer_defs expand_defs run_defs eval_nat_numeral)
  have h3: "\<forall>c \<in> set (Cmds ?built). cmd_Process c = NotStarted"
    by (simp add: build_defs tokenizer_defs expand_defs)
  have len: "length (Cmds ?built) = 3" and calls: "calls ?built = []"
    by (simp_all add: build_defs tokenizer_defs expand_defs)
  have h4: "2 < length (Cmds ?built)"
    using len by simp
  have h5: "os_start ?w 2 = Some ''not found''"
    by (simp add: system_of_def)
  have h6: "\<forall>j<2. os_start ?w j = None"
    by (simp add: system_of_def less_Suc_eq numeral_2_eq_2)
  from C5_launch_failure [OF h1 h2 h3 h4 h5 h6] obtain p' where
    "Run ?w ?q = Inr (p', [], Some (StartError ''not found''))"
    "calls p' = calls ?built @ map CallStart [0..<Suc 2] @ map CallWait [0..<2]"
    "map cmd_Process (Cmds p') = replicate 2 Finished @ replicate (length (Cmds ?built) - 2) NotStarted"
    by blast
  then show ?thesis
    by (simp add: len calls eval_nat_numeral)
qed

text \<open>
  C6. The claim: a command string with no pipe token gives exactly one stage, and one
  with \<open>k\<close> pipe tokens and no empty word group gives exactly \<open>k + 1\<close> stages, each
  stage's standard output connected to the next one's standard input. Two inputs show
  that this fails as stated: the empty command string has no pipe token and gives no
  stage, and \<^verbatim>\<open>a $P b\<close>, whose tokens hold no pipe token, gives two stages when \<^verbatim>\<open>$P\<close>
  expands to a pipe character, because tokens are expanded before they are grouped.
\<close>

theorem C6_stage_count_counterexample:
  "map_sum id (length \<circ> Cmds) (findCmds (system_of [] [] []) (NewProcess [])) = Inr 0
   \<and> SplitCommand (system_of [(''P'', ''|'')] [] []) ''a $P b'' = Inr [''a'', ''$P'', ''b'']
   \<and> count_list [''a'', ''$P'', ''b''] ''|'' = 0
   \<and> map_sum id (map cmd_Args \<circ> Cmds)
        (findCmds (system_of [(''P'', ''|'')] [] []) ((NewProcess ''a $P b'')\<lparr>Env := Some []\<rparr>))
      = Inr [[''a''], [''b'']]"
  by (simp add: build_defs tokenizer_defs expand_defs)

text \<open>
  C6, as amended. For a non-empty command string, with no commands given beforehand,
  whose tokens after expansion hold \<open>k\<close> pipe tokens and no empty word group,
  \<^verbatim>\<open>findCmds\<close> builds exactly \<open>k + 1\<close> stages, the \<open>i\<close>-th with the \<open>i\<close>-th word group
  as its argument vector, and \<^verbatim>\<open>setupPipes\<close> then connects the standard output of each
  stage to the standard input of the next and returns no error. When no word expands
  to a pipe character, \<open>k\<close> is the number of pipe tokens of the command string itself.
\<close>

theorem C6_stages_and_pipes:
  assumes "Cmds p = []" and "CmdString p \<noteq> []"
    and "SplitCommand w (CmdString p) = Inr toks"
    and "[] \<notin> set (word_groups (map (expand w p) toks))"
  shows "(\<exists>p1 p2. findCmds w p = Inr p1
     \<and> map cmd_Args (Cmds p1) = word_groups (map (expand w p) toks)
     \<and> length (Cmds p1) = count_list (map (expand w p) toks) ''|'' + 1
     \<and> setupPipes p1 = Inr (p2, None)
     \<and> map cmd_Args (Cmds p2) = map cmd_Args (Cmds p1)
     \<and> (\<forall>i. Suc i < length (Cmds p2) \<longrightarrow>
            cmd_Stdout (Cmds p2 ! i) = Some (PipeWrite (OutPipe i))
          \<and> cmd_Stdin (Cmds p2 ! Suc i) = Some (PipeRead (OutPipe i))))
   \<and> ((\<forall>t \<in> set toks. t \<noteq> ''|'' \<longrightarrow> expand w p t \<noteq> ''|'') \<longrightarrow>
        count_list (map (expand w p) toks) ''|'' = count_list toks ''|'')"
proof
  let ?groups = "word_groups (map (expand w p) toks)"
  let ?p1 = "p\<lparr>Cmds := stages w p 0 ?groups\<rparr>"
  have built: "findCmds w p = Inr ?p1"
    using assms by (simp add: findCmds_built)
  have args: "map cmd_Args (Cmds ?p1) = ?groups"
    by (simp add: args_stages)
  have len: "length (Cmds ?p1) = count_list (map (expand w p) toks) ''|'' + 1"
    by (simp add: length_stages length_word_groups)
  have ne: "Cmds ?p1 \<noteq> []"
    using len by (cases "Cmds ?p1") simp_all
  have fr: "\<forall>c \<in> set (Cmds ?p1). fresh c"
    by (auto simp: stages_fresh)
  from setupPipes_fresh [OF ne fr] obtain cs where
    wired: "setupPipes ?p1 = Inr (?p1\<lparr>Cmds := cs, outputWait := Some 2\<rparr>, None)"
    and lcs: "length cs = length (Cmds ?p1)"
    and pipes: "\<forall>j. Suc j < length cs \<longrightarrow>
            cmd_Stdout (cs ! j) = Some (PipeWrite (OutPipe j))
          \<and> cmd_Stdin (cs ! Suc j) = Some (PipeRead (OutPipe j))"
    and same: "\<forall>j<length cs. cmd_Process (cs ! j) = NotStarted
            \<and> cmd_Args (cs ! j) = cmd_Args (Cmds ?p1 ! j)
            \<and> cmd_Env (cs ! j) = cmd_Env (Cmds ?p1 ! j)"
    by blast
  let ?p2 = "?p1\<lparr>Cmds := cs, outputWait := Some 2\<rparr>"
  have "map cmd_Args (Cmds ?p2) = map cmd_Args (Cmds ?p1)"
    using lcs same by (intro nth_equalityI) simp_all
  with built args len wired pipes
  show "\<exists>p1 p2. findCmds w p = Inr p1
     \<and> map cmd_Args (Cmds p1) = word_groups (map (expand w p) toks)
     \<and> length (Cmds p1) = count_list (map (expand w p) toks) ''|'' + 1
     \<and> setupPipes p1 = Inr (p2, None)
     \<and> map cmd_Args (Cmds p2) = map cmd_Args (Cmds p1)
     \<and> (\<forall>i. Suc i < length (Cmds p2) \<longrightarrow>
            cmd_Stdout (Cmds p2 ! i) = Some (PipeWrite (OutPipe i))
          \<and> cmd_Stdin (Cmds p2 ! Suc i) = Some (PipeRead (OutPipe i)))"
    by (intro exI [of _ ?p1] exI [of _ ?p2]) simp
next
  show "(\<forall>t \<in> set toks. t \<noteq> ''|'' \<longrightarrow> expand w p t \<noteq> ''|'') \<longrightarrow>
        count_list (map (expand w p) toks) ''|'' = count_list toks ''|''"
    by (simp add: count_pipes_map expand_pipe)
qed

theorem C6_stages_and_pipes_witness:
  "\<exists>p1 p2. findCmds (system_of [] [] []) (NewProcess ''echo hi|wc -l'') = Inr p1
     \<and> map cmd_Args (Cmds p1) = [[''echo'', ''hi''], [''wc'', ''-l'']]
     \<and> setupPipes p1 = Inr (p2, None)
     \<and> map cmd_Args (Cmds p2) = [[''echo'', ''hi''], [''wc'', ''-l'']]
     \<and> cmd_Stdout (Cmds p2 ! 0) = Some (PipeWrite (OutPipe 0))
     \<and> cmd_Stdin (Cmds p2 ! 1) = Some (PipeRead (OutPipe 0))"
proof -
  let ?w = "system_of [] [] []" and ?p = "NewProcess ''echo hi|wc -l''"
  let ?toks = "[''echo'', ''hi'', ''|'', ''wc'', ''-l'']"
  have h1: "Cmds ?p = []" and h2: "CmdString ?p \<noteq> []"
    by (simp_all add: NewProcess_def)
  have h3: "SplitCommand ?w (CmdString ?p) = Inr ?toks"
    by (simp add: NewProcess_def system_of_def tokenizer_defs)
  have ex: "map (expand ?w ?p) ?toks = ?toks"
    by (simp add: NewProcess_def expand_defs)
  have groups: "word_groups ?toks = [[''echo'', ''hi''], [''wc'', ''-l'']]"
    by simp
  have h4: "[] \<notin> set (word_groups (map (expand ?w ?p) ?toks))"
    unfolding ex by simp
  from C6_stages_and_pipes [OF h1 h2 h3 h4, THEN conjunct1] obtain p1 p2 where
    "findCmds ?w ?p = Inr p1"
    "map cmd_Args (Cmds p1) = word_groups (map (expand ?w ?p) ?toks)"
    "length (Cmds p1) = count_list (map (expand ?w ?p) ?toks) ''|'' + 1"
    "setupPipes p1 = Inr (p2, None)"
    "map cmd_Args (Cmds p2) = map cmd_Args (Cmds p1)"
    "\<forall>i. Suc i < length (Cmds p2) \<longrightarrow>
            cmd_Stdout (Cmds p2 ! i) = Some (PipeWrite (OutPipe i))
          \<and> cmd_Stdin (Cmds p2 ! Suc i) = Some (PipeRead (OutPipe i))"
    by blast
  moreover from this have "length (Cmds p2) = 2"
    using ex groups by (metis length_map length_Cons list.size(3) One_nat_def Suc_1)
  ultimately show ?thesis
    using ex groups by (intro exI [of _ p1] exI [of _ p2]) simp
qed

text \<open>
  C7. A reader task on a stream that consists of the lines \<open>ls\<close>, each ended by a
  newline, and then bytes with no newline, returns when the stream reports its end,
  having appended to the output buffer the lines without their newlines, each passed
  through the line transform when one is set, with nothing between them. With the
  uppercasing transform and an empty buffer, the lines \<^verbatim>\<open>hello\<close> and \<^verbatim>\<open>world\<close> leave
  \<^verbatim>\<open>HELLOWORLD\<close> in the buffer, however the stream is cut into reads.
\<close>

theorem C7_complete_lines_buffered:
  assumes "r k = ReadErr" and "\<forall>n<k. r n \<noteq> ReadErr"
    and "stream_data r k = concat (map (\<lambda>l. l @ [CHR 0x0A]) ls) @ tail"
    and "\<forall>l \<in> set ls. CHR 0x0A \<notin> set l" and "CHR 0x0A \<notin> set tail"
    and "outputWait p = Some (Suc c)"
  shows "lineReader r p =
       Some (Inr (p\<lparr>outBuffer := outBuffer p @ concat (map (transform p) ls),
                    outputWait := Some c\<rparr>))
    \<and> (OutputHandler p = Some ToUpper \<and> outBuffer p = [] \<and> ls = [''hello'', ''world'']
        \<longrightarrow> map_option (map_sum id outBuffer) (lineReader r p) = Some (Inr ''HELLOWORLD''))"
proof -
  have res: "lineReader r p =
      Some (Inr (p\<lparr>outBuffer := outBuffer p @ concat (map (transform p) ls),
                   outputWait := Some c\<rparr>))"
    using lineReader_result [OF assms(1,2,6)] complete_lines_lines [OF assms(4,5)] assms(3)
    by simp
  have up: "ToUpper ''hello'' = ''HELLO''" "ToUpper ''world'' = ''WORLD''"
    by code_simp+
  from res up show ?thesis
    by (auto simp: transform_def)
qed

theorem C7_complete_lines_buffered_witness:
  "map_option (map_sum id outBuffer)
     (lineReader (stream_of [''hel'', ''lo'' @ [CHR 0x0A] @ ''wor'', ''ld'' @ [CHR 0x0A]])
        ((NewProcess ''echo'')\<lparr>OutputHandler := Some ToUpper, outputWait := Some 2\<rparr>))
   = Some (Inr ''HELLOWORLD'')"
proof -
  let ?r = "stream_of [''hel'', ''lo'' @ [CHR 0x0A] @ ''wor'', ''ld'' @ [CHR 0x0A]]"
  let ?p = "(NewProcess ''echo'')\<lparr>OutputHandler := Some ToUpper, outputWait := Some 2\<rparr>"
  have h1: "?r 3 = ReadErr" and h2: "\<forall>n<3. ?r n \<noteq> ReadErr"
    by (simp_all add: stream_of_def)
  have h3: "stream_data ?r 3
      = concat (map (\<lambda>l. l @ [CHR 0x0A]) [''hello'', ''world'']) @ []"
    by (simp add: stream_data_def stream_of_def eval_nat_numeral)
  have h4: "\<forall>l \<in> set [''hello'', ''world'']. CHR 0x0A \<notin> set l"
    and h5: "CHR 0x0A \<notin> set []"
    by simp_all
  have h6: "outputWait ?p = Some (Suc 1)"
    by (simp add: NewProcess_def)
  have p: "OutputHandler ?p = Some ToUpper \<and> outBuffer ?p = []
      \<and> [''hello'', ''world''] = [''hello'', ''world'']"
    by (simp add: NewProcess_def)
  from C7_complete_lines_buffered [OF h1 h2 h3 h4 h5 h6] p show ?thesis
    by blast
qed

text \<open>
  C8. A reader task returns at the first read that reports an error (the end of input
  or any other), and what the stream has delivered after its last newline is dropped:
  when the bytes read are \<open>body\<close> followed by \<open>tail\<close>, and \<open>tail\<close> holds no newline,
  the output buffer gains the complete lines of \<open>body\<close> and nothing else, the same as on
  a stream that delivers \<open>body\<close> alone.
\<close>

theorem C8_reader_ends_and_drops_tail:
  assumes "r k = ReadErr" and "\<forall>n<k. r n \<noteq> ReadErr"
    and "stream_data r k = body @ tail" and "CHR 0x0A \<notin> set tail"
    and "outputWait p = Some (Suc c)"
  shows "lineReader r p =
       Some (Inr (p\<lparr>outBuffer := outBuffer p @ concat (map (transform p) (complete_lines body)),
                    outputWait := Some c\<rparr>))
    \<and> lineReader r p = lineReader (stream_of [body]) p"
  using lineReader_result [OF assms(1,2,5)] assms(3) complete_lines_tail [OF assms(4), of body]
  by (simp add: lineReader_stream_of_single [OF assms(5)])

theorem C8_reader_ends_and_drops_tail_witness:
  "map_option (map_sum id outBuffer)
     (lineReader (stream_of [''ab'' @ [CHR 0x0A] @ ''cd'', ''ef''])
        ((NewProcess ''echo'')\<lparr>outputWait := Some 2\<rparr>))
   = Some (Inr ''ab'')
   \<and> lineReader (stream_of [''ab'' @ [CHR 0x0A] @ ''cd'', ''ef''])
       ((NewProcess ''echo'')\<lparr>outputWait := Some 2\<rparr>)
     = lineReader (stream_of [''ab'' @ [CHR 0x0A]]) ((NewProcess ''echo'')\<lparr>outputWait := Some 2\<rparr>)"
proof -
  let ?r = "stream_of [''ab'' @ [CHR 0x0A] @ ''cd'', ''ef'']"
  let ?p = "(NewProcess ''echo'')\<lparr>outputWait := Some 2\<rparr>"
  have h1: "?r 2 = ReadErr" and h2: "\<forall>n<2. ?r n \<noteq> ReadErr"
    by (simp_all add: stream_of_def)
  have h3: "stream_data ?r 2 = (''ab'' @ [CHR 0x0A]) @ ''cdef''"
    by (simp add: stream_data_def stream_of_def eval_nat_numeral)
  have h4: "CHR 0x0A \<notin> set ''cdef''"
    by simp
  have h5: "outputWait ?p = Some (Suc 1)"
    by (simp add: NewProcess_def)
  have cl: "complete_lines (''ab'' @ [CHR 0x0A]) = [''ab'']"
    by (simp add: complete_lines_def)
  note t = C8_reader_ends_and_drops_tail [OF h1 h2 h3 h4 h5]
  from t [THEN conjunct1] cl
  have "map_option (map_sum id outBuffer) (lineReader ?r ?p) = Some (Inr ''ab'')"
    by (simp add: transform_def NewProcess_def)
  with t [THEN conjunct2] show ?thesis
    by simp
qed

text \<open>
  C9. The claim: for every input that the public operations accept, the empty command
  string with no commands given beforehand included, an executed pipeline has at least
  one stage and neither \<^verbatim>\<open>setupPipes\<close> nor \<^verbatim>\<open>Wait\<close> reads outside the list of stages.
  In the code, on \<^verbatim>\<open>NewProcess("")\<close>, \<^verbatim>\<open>findCmds\<close> returns with no stage, \<^verbatim>\<open>Run\<close> and
  \<^verbatim>\<open>Start\<close> then panic in \<^verbatim>\<open>setupPipes\<close> on the slice \<^verbatim>\<open>p.Cmds[:-1]\<close>, and
  \<^verbatim>\<open>Wait\<close> panics on the index \<^verbatim>\<open>p.Cmds[-1]\<close>.
\<close>

theorem C9_empty_pipeline_panics:
  "findCmds w (NewProcess []) = Inr (NewProcess [])
   \<and> Run w (NewProcess []) = Inl PanicSliceBounds
   \<and> Start w (NewProcess []) = Inl PanicSliceBounds
   \<and> Wait w (NewProcess []) = Inl PanicIndexOutOfRange"
  by (simp add: findCmds_def NewProcess_def Run_def Start_def Wait_def setupPipes_def)

text \<open>
  C10. The claim: whenever an override mapping is supplied (\<^verbatim>\<open>Env\<close> non-nil), the
  environment of every stage consists of exactly one entry \<^verbatim>\<open>KEY=value\<close> per key of
  the mapping. This fails for a pipeline whose commands are given beforehand:
  \<^verbatim>\<open>findCmds\<close> returns at its first guard, \<^verbatim>\<open>addCmd\<close> is never called, and a stage
  keeps the environment it came with, here none, so that the child inherits the
  ambient environment.
\<close>

theorem C10_prebuilt_keeps_environment:
  "map_sum id (map cmd_Env \<circ> Cmds)
     (findCmds (system_of [(''HOME'', ''/root'')] [] [])
        ((NewProcess [])\<lparr>Cmds := [exec_Command ''env'' []], Env := Some [(''A'', ''1'')]\<rparr>))
   = Inr [None]"
  by (simp add: findCmds_def NewProcess_def exec_Command_def)

text \<open>
  C10, as amended. With an override mapping (\<^verbatim>\<open>Env\<close> non-nil) and no commands given
  beforehand, every stage built from the command string gets as its environment a list
  that holds exactly one entry \<^verbatim>\<open>KEY=value\<close> per entry of the mapping, the value
  being the mapping's value passed through \<^verbatim>\<open>expand\<close>, and no other entry, so that no
  variable of the ambient environment is passed on. The order of the entries is that
  of the stage's own \<^verbatim>\<open>range\<close> over the mapping and can differ from stage to stage.
  With commands given beforehand \<^verbatim>\<open>findCmds\<close> leaves the pipeline as it is.
\<close>

theorem C10_child_environment:
  "(Env p = Some kvs \<and> Cmds p = [] \<and> findCmds w p = Inr p' \<longrightarrow>
      (\<forall>c \<in> set (Cmds p').
         \<exists>es. cmd_Env c = Some es
           \<and> mset es = mset (map (\<lambda>(k, v). k @ ''='' @ expand w p v) kvs)))
   \<and> (Cmds p \<noteq> [] \<longrightarrow> findCmds w p = Inr p)"
proof (intro conjI impI)
  assume a: "Env p = Some kvs \<and> Cmds p = [] \<and> findCmds w p = Inr p'"
  show "\<forall>c \<in> set (Cmds p').
         \<exists>es. cmd_Env c = Some es
           \<and> mset es = mset (map (\<lambda>(k, v). k @ ''='' @ expand w p v) kvs)"
  proof (cases "CmdString p = []")
    case True
    with a show ?thesis
      by (auto simp: findCmds_def)
  next
    case False
    from a False obtain toks where toks: "SplitCommand w (CmdString p) = Inr toks"
      by (auto simp: findCmds_def split: sum.splits)
    from a False toks
    have "Cmds p' = stages w p 0 (word_groups (map (expand w p) toks))"
      by (auto simp: findCmds_built split: if_splits)
    with a show ?thesis
      using stages_env [of p kvs _ w 0] by simp
  qed
next
  assume "Cmds p \<noteq> []"
  then show "findCmds w p = Inr p"
    by (rule findCmds_prebuilt)
qed

theorem C10_child_environment_witness:
  "map_sum id (map cmd_Env \<circ> Cmds)
     (findCmds
        ((system_of [(''HOME'', ''/root''), (''B'', ''1'')] [] [])
           \<lparr>range_rank := (\<lambda>n k. if n = 1 \<and> k = ''A'' then 1 else 0)\<rparr>)
        ((NewProcess ''echo hi | wc'')\<lparr>Env := Some [(''A'', ''x$B''), (''C'', ''y'')]\<rparr>))
   = Inr [Some [''A=x1'', ''C=y''], Some [''C=y'', ''A=x1'']]
   \<and> mset [''C=y'', ''A=x1''] = mset [''A=x1'', ''C=y'']
   \<and> findCmds (system_of [] [] [])
        ((NewProcess [])\<lparr>Cmds := [exec_Command ''env'' []], Env := Some [(''A'', ''1'')]\<rparr>)
     = Inr ((NewProcess [])\<lparr>Cmds := [exec_Command ''env'' []], Env := Some [(''A'', ''1'')]\<rparr>)"
proof -
  let ?w = "(system_of [(''HOME'', ''/root''), (''B'', ''1'')] [] [])
           \<lparr>range_rank := (\<lambda>n k. if n = 1 \<and> k = ''A'' then 1 else 0)\<rparr>"
  let ?p = "(NewProcess ''echo hi | wc'')\<lparr>Env := Some [(''A'', ''x$B''), (''C'', ''y'')]\<rparr>"
  let ?s0 = "\<lparr>cmd_Path = ''echo'', cmd_Args = [''echo'', ''hi''], cmd_Dir = [],
       cmd_Env = Some [''A=x1'', ''C=y''],
       cmd_Stdin = None, cmd_Stdout = None, cmd_Stderr = None, cmd_Process = NotStarted\<rparr>"
  let ?s1 = "\<lparr>cmd_Path = ''wc'', cmd_Args = [''wc''], cmd_Dir = [],
       cmd_Env = Some [''C=y'', ''A=x1''],
       cmd_Stdin = None, cmd_Stdout = None, cmd_Stderr = None, cmd_Process = NotStarted\<rparr>"
  let ?built = "?p\<lparr>Cmds := [?s0, ?s1]\<rparr>"
  let ?own = "(NewProcess [])\<lparr>Cmds := [exec_Command ''env'' []], Env := Some [(''A'', ''1'')]\<rparr>"
  have h: "Env ?p = Some [(''A'', ''x$B''), (''C'', ''y'')] \<and> Cmds ?p = []
      \<and> findCmds ?w ?p = Inr ?built"
    by (simp add: build_defs tokenizer_defs expand_defs)
  have ex: "expand ?w ?p ''x$B'' = ''x1''" "expand ?w ?p ''y'' = ''y''"
    by (simp_all add: NewProcess_def system_of_def expand_defs)
  note t = C10_child_environment
    [where p = ?p and kvs = "[(''A'', ''x$B''), (''C'', ''y'')]" and w = ?w and p' = ?built]
  from t h have "\<forall>c \<in> set (Cmds ?built).
         \<exists>es. cmd_Env c = Some es
           \<and> mset es = mset (map (\<lambda>(k, v). k @ ''='' @ expand ?w ?p v)
                              [(''A'', ''x$B''), (''C'', ''y'')])"
    by blast
  with ex have m: "mset [''C=y'', ''A=x1''] = mset [''A=x1'', ''C=y'']"
    by simp
  have "Cmds ?own \<noteq> []"
    by simp
  with C10_child_environment [where p = ?own and w = "system_of [] [] []"]
  have own: "findCmds (system_of [] [] []) ?own = Inr ?own"
    by blast
  from h m own show ?thesis
    by simp
qed

end
